theory Spec2Isabelle
  imports Main "HOL-Library.Word"
begin

section \<open>Merkle membership index (src/zkp-server.js, class MerkleTree)\<close>

text \<open>
  Tree nodes are JavaScript BigInt values, modelled as \<open>int\<close>. The Poseidon
  permutation comes from the circomlibjs package; the class only ever uses it as
  \<open>BigInt(poseidon.F.toString(poseidon([left, right])))\<close>, a pure function of two
  nodes, so it is the parameter \<open>H\<close> of every definition below.
\<close>

type_synonym node = int
type_synonym hasher = "node \<Rightarrow> node \<Rightarrow> node"

text \<open>\<open>const TREE_DEPTH = 20;\<close>\<close>

definition TREE_DEPTH :: nat where
  "TREE_DEPTH = 20"

text \<open>
  What the code can throw: the constructor's \<open>Error("Feuilles invalides")\<close>, and the
  TypeError of calling \<open>.toString()\<close> on \<open>undefined\<close>.
\<close>

datatype js_error = FeuillesInvalides | TypeError

text \<open>
  \<open>layer[i]\<close> on a JavaScript array: \<open>undefined\<close> (here \<open>None\<close>) out of range.
\<close>

definition at_index :: "'a list \<Rightarrow> nat \<Rightarrow> 'a option" where
  "at_index xs i = (if i < length xs then Some (xs ! i) else None)"

text \<open>\<open>a ?? b\<close>: the right operand when the left one is \<open>undefined\<close>.\<close>

definition nullish :: "'a option \<Rightarrow> 'a option \<Rightarrow> 'a option" where
  "nullish a b = (case a of Some v \<Rightarrow> Some v | None \<Rightarrow> b)"

text \<open>
  The inner \<open>for\<close> loop of \<open>buildTree\<close>:
  \<^verbatim>\<open>
      for (let i = 0; i < level.length; i += 2) {
        const left = level[i];
        const right = level[i + 1] ?? level[i];
        const h = poseidon([left, right]);
        next.push(BigInt(poseidon.F.toString(h)));
      }
  \<close>
\<close>

fun nextLevel :: "hasher \<Rightarrow> node list \<Rightarrow> node list" where
  "nextLevel H (left # right # rest) = H left right # nextLevel H rest"
| "nextLevel H [left] = [H left left]"
| "nextLevel H [] = []"

text \<open>
  The \<open>while (level.length > 1)\<close> loop of \<open>buildTree\<close>, with the array \<open>tree\<close> it
  pushes to and the current \<open>level\<close>. (Logging is left out; the \<open>console.log\<close> of
  the root after the loop would throw on an empty list of leaves, which the
  constructor, the only caller, has excluded before.)
  \<^verbatim>\<open>
    const tree = [leaves];
    let level = leaves;
    while (level.length > 1) {
      const next = [];
      ...
      tree.push(next);
      level = next;
    }
    return tree;
  \<close>
\<close>

function buildTree_loop :: "hasher \<Rightarrow> node list list \<Rightarrow> node list \<Rightarrow> node list list" where
  "buildTree_loop H tree level =
     (if length level > 1
      then (let next = nextLevel H level in buildTree_loop H (tree @ [next]) next)
      else tree)"
  by pat_completeness auto
termination
proof (relation "measure (\<lambda>(H, tree, level). length level)")
  show "wf (measure (\<lambda>(H, tree, level). length level))"
    by simp
next
  fix H :: hasher and tree :: "node list list" and level nxt :: "node list"
  assume big: "1 < length level" and nxt: "nxt = nextLevel H level"
  have "length (nextLevel H xs) = (length xs + 1) div 2" for xs
    by (induction H xs rule: nextLevel.induct) simp_all
  with big nxt show "((H, tree @ [nxt], nxt), (H, tree, level))
        \<in> measure (\<lambda>(H, tree, level). length level)"
    by simp
qed

definition buildTree :: "hasher \<Rightarrow> node list \<Rightarrow> node list list" where
  "buildTree H leaves = buildTree_loop H [leaves] leaves"

text \<open>
  The class: \<open>this.leaves\<close> and \<open>this.tree\<close>. The constructor refuses an empty list
  of leaves.
\<close>

record MerkleTree =
  leaves :: "node list"
  tree :: "node list list"

definition new_MerkleTree :: "hasher \<Rightarrow> node list \<Rightarrow> js_error + MerkleTree" where
  "new_MerkleTree H poseidonHashedLeaves =
     (if poseidonHashedLeaves = [] then Inl FeuillesInvalides
      else Inr \<lparr>leaves = poseidonHashedLeaves, tree = buildTree H poseidonHashedLeaves\<rparr>)"

text \<open>\<open>getRoot() { return this.tree[this.tree.length - 1][0].toString(); }\<close>\<close>

definition getRoot :: "MerkleTree \<Rightarrow> js_error + node" where
  "getRoot t =
     (case at_index (tree t) (length (tree t) - 1) of
        None \<Rightarrow> Inl TypeError
      | Some lastLevel \<Rightarrow> (case at_index lastLevel 0 of None \<Rightarrow> Inl TypeError | Some r \<Rightarrow> Inr r))"

text \<open>
  The result of \<open>getProof\<close>: \<open>{ pathElements, pathIndices }\<close>.
\<close>

record MerkleProof =
  pathElements :: "node list"
  pathIndices :: "nat list"

text \<open>
  The \<open>for\<close> loop of \<open>getProof\<close> over the layers \<open>tree[0 .. tree.length - 2]\<close>:
  \<^verbatim>\<open>
      const isRight = index % 2;
      const siblingIndex = isRight ? index - 1 : index + 1;
      const layer = this.tree[level];
      const sibling = layer[siblingIndex] ?? layer[index];
      pathElements.push(sibling.toString());
      pathIndices.push(isRight);
      index = Math.floor(index / 2);
  \<close>
  The index is a natural number: every caller passes the result of \<open>findIndex\<close> after
  the \<open>-1\<close> test, or a literal.
\<close>

fun getProof_loop ::
  "node list list \<Rightarrow> node list \<Rightarrow> nat list \<Rightarrow> nat \<Rightarrow> js_error + (node list \<times> nat list)" where
  "getProof_loop [] els ids index = Inr (els, ids)"
| "getProof_loop (layer # layers) els ids index =
     (let isRight = index mod 2;
          siblingIndex = (if isRight \<noteq> 0 then index - 1 else index + 1)
      in case nullish (at_index layer siblingIndex) (at_index layer index) of
           None \<Rightarrow> Inl TypeError
         | Some sibling \<Rightarrow>
             getProof_loop layers (els @ [sibling]) (ids @ [isRight]) (index div 2))"

text \<open>
  The padding loop: \<open>while (pathElements.length < TREE_DEPTH) { push("0"); push(0) }\<close>.
\<close>

definition pad_to_depth :: "'a \<Rightarrow> 'a list \<Rightarrow> 'a list" where
  "pad_to_depth z xs = xs @ replicate (TREE_DEPTH - length xs) z"

definition getProof :: "MerkleTree \<Rightarrow> nat \<Rightarrow> js_error + MerkleProof" where
  "getProof t index =
     (case getProof_loop (butlast (tree t)) [] [] index of
        Inl e \<Rightarrow> Inl e
      | Inr (els, ids) \<Rightarrow>
          Inr \<lparr>pathElements = pad_to_depth 0 els, pathIndices = pad_to_depth 0 ids\<rparr>)"

text \<open>
  The manual check of the /zkp/generate-proof handler (\<open>verifyProofManually\<close> in the
  debug script is the same loop):
  \<^verbatim>\<open>
    let currentHash = voterLeaf;
    for (let i = 0; i < proofPath.pathElements.length; i++) {
      const sibling = BigInt(proofPath.pathElements[i]);
      if (sibling.toString() === "0") continue;
      const isRight = proofPath.pathIndices[i];
      const left = isRight === 1 ? sibling : currentHash;
      const right = isRight === 1 ? currentHash : sibling;
      currentHash = BigInt(poseidon.F.toString(poseidon([left, right])));
    }
  \<close>
  \<open>i\<close> counts the elements already consumed.
\<close>

fun manualFold :: "hasher \<Rightarrow> node list \<Rightarrow> nat list \<Rightarrow> nat \<Rightarrow> node \<Rightarrow> node" where
  "manualFold H [] ids i currentHash = currentHash"
| "manualFold H (sibling # els) ids i currentHash =
     (if sibling = 0 then manualFold H els ids (i + 1) currentHash
      else (let isRight = at_index ids i;
                left = (if isRight = Some 1 then sibling else currentHash);
                right = (if isRight = Some 1 then currentHash else sibling)
            in manualFold H els ids (i + 1) (H left right)))"

definition rootsMatch :: "hasher \<Rightarrow> MerkleProof \<Rightarrow> node \<Rightarrow> node \<Rightarrow> bool" where
  "rootsMatch H proofPath voterLeaf merkleRoot =
     (manualFold H (pathElements proofPath) (pathIndices proofPath) 0 voterLeaf = merkleRoot)"

text \<open>
  A concrete two-argument function standing in for Poseidon where a statement is
  evaluated on explicit leaves. The general theorems hold for every \<open>H\<close>.
\<close>

definition sampleHash :: hasher where
  "sampleHash l r = 2 * l + 3 * r + 1"

text \<open>
  What \<open>getProof\<close> records at position \<open>i\<close> of a layer, read off its loop body:
  the left neighbour of a right node, the right neighbour of a left node when the
  layer has one, and otherwise the node itself (\<open>layer[siblingIndex] ?? layer[index]\<close>).
\<close>

definition sibling_or_self :: "node list \<Rightarrow> nat \<Rightarrow> node" where
  "sibling_or_self layer i =
     (if odd i then layer ! (i - 1)
      else if i + 1 < length layer then layer ! (i + 1)
      else layer ! i)"


section \<open>The benchmark's Merkle index (merkle-helper.js, class MerkleTreeHelper)\<close>

text \<open>
  The second document of src/benchmark/k6-vote-simulation-fixed.js. Its nodes are
  decimal strings made by \<open>BigInt(...).toString()\<close> and \<open>poseidon.F.toString\<close>, so a
  node is the string \<open>'0'\<close> exactly when its value is 0; they are modelled by their
  values. \<open>hash(left, right)\<close> is the same Poseidon call as above, the parameter \<open>H\<close>.
\<close>

datatype helper_error = ArbreNonConstruit | IndexHorsLimites | LevelUndefined

text \<open>
  The inner loop of \<open>MerkleTreeHelper.buildTree\<close>:
  \<^verbatim>\<open>
      for (let i = 0; i < currentLevel.length; i += 2) {
          const left = currentLevel[i];
          const right = i + 1 < currentLevel.length ? currentLevel[i + 1] : '0';
          // Si right est 0 (padding), on garde left inchange (comme dans le circuit)
          if (right === '0') { nextLevel.push(left); }
          else { nextLevel.push(this.hash(left, right)); }
      }
  \<close>
\<close>

fun helper_pairs :: "hasher \<Rightarrow> node list \<Rightarrow> node list" where
  "helper_pairs H (left # right # rest) =
     (if right = 0 then left else H left right) # helper_pairs H rest"
| "helper_pairs H [left] = [left]"
| "helper_pairs H [] = []"

text \<open>One round of the outer loop: \<open>if (nextLevel.length === 0) nextLevel.push('0')\<close>.\<close>

definition helper_nextLevel :: "hasher \<Rightarrow> node list \<Rightarrow> node list" where
  "helper_nextLevel H currentLevel =
     (let nextLevel = helper_pairs H currentLevel
      in if nextLevel = [] then [0] else nextLevel)"

text \<open>
  The outer loop, \<open>for (let level = 0; level < depth; level++)\<close>, with the number of
  rounds still to run: it pushes one level per round, whatever the number of leaves.
\<close>

fun helper_levels :: "hasher \<Rightarrow> nat \<Rightarrow> node list \<Rightarrow> node list list" where
  "helper_levels H 0 currentLevel = [currentLevel]"
| "helper_levels H (Suc rounds) currentLevel =
     currentLevel # helper_levels H rounds (helper_nextLevel H currentLevel)"

text \<open>\<open>this.tree\<close> after \<open>buildTree(voterIds)\<close>, with \<open>const depth = 20\<close>.\<close>

definition MerkleTreeHelper_buildTree :: "hasher \<Rightarrow> node list \<Rightarrow> node list list" where
  "MerkleTreeHelper_buildTree H voterIds = helper_levels H 20 voterIds"

text \<open>
  The result of \<open>getMerklePath\<close>: \<open>{ elements, indices }\<close>.
\<close>

record MerklePath =
  elements :: "node list"
  indices :: "nat list"

text \<open>
  The loop of \<open>getMerklePath\<close> over \<open>this.tree[0 .. 19]\<close>:
  \<^verbatim>\<open>
      const isLeft = index % 2 === 0;
      const siblingIndex = isLeft ? index + 1 : index - 1;
      let sibling = '0';
      if (siblingIndex >= 0 && siblingIndex < currentLevel.length) {
          sibling = currentLevel[siblingIndex];
      }
      path.elements.push(sibling);
      path.indices.push(isLeft ? 0 : 1);
      index = Math.floor(index / 2);
  \<close>
\<close>

definition sibling_or_zero :: "node list \<Rightarrow> nat \<Rightarrow> node" where
  "sibling_or_zero currentLevel index =
     (let isLeft = (index mod 2 = 0);
          siblingIndex = (if isLeft then index + 1 else index - 1)
      in case at_index currentLevel siblingIndex of Some sibling \<Rightarrow> sibling | None \<Rightarrow> 0)"

fun getMerklePath_loop :: "node list list \<Rightarrow> node list \<Rightarrow> nat list \<Rightarrow> nat \<Rightarrow> MerklePath" where
  "getMerklePath_loop [] els ids index = \<lparr>elements = els, indices = ids\<rparr>"
| "getMerklePath_loop (currentLevel # levels) els ids index =
     getMerklePath_loop levels
       (els @ [sibling_or_zero currentLevel index])
       (ids @ [if index mod 2 = 0 then 0 else 1])
       (index div 2)"

text \<open>
  \<open>getMerklePath(leafIndex)\<close> on the fields \<open>this.tree\<close> and \<open>this.leaves\<close>: it throws
  when no tree has been built and when the index is not below the number of leaves;
  reading \<open>this.tree[level].length\<close> of a missing level would throw a TypeError.
\<close>

definition MerkleTreeHelper_getMerklePath ::
  "node list list \<Rightarrow> node list \<Rightarrow> nat \<Rightarrow> helper_error + MerklePath" where
  "MerkleTreeHelper_getMerklePath tree' leaves' leafIndex =
     (if tree' = [] then Inl ArbreNonConstruit
      else if leafIndex \<ge> length leaves' then Inl IndexHorsLimites
      else if length tree' < 20 then Inl LevelUndefined
      else Inr (getMerklePath_loop (take 20 tree') [] [] leafIndex))"

section \<open>The voting ledger (src/contracts/VotingSystem.sol)\<close>

text \<open>
  Solidity value types: \<open>uint256\<close> and \<open>bytes32\<close> are 256-bit words, \<open>address\<close> is a
  160-bit word, \<open>bytes\<close> and \<open>string\<close> are sequences. Arithmetic on \<open>uint256\<close> is
  checked (pragma \<open>^0.8.20\<close>): \<open>x++\<close> reverts with Panic(0x11) at the maximum.
\<close>

type_synonym uint256 = "256 word"
type_synonym bytes32 = "256 word"
type_synonym address = "160 word"
type_synonym bytes = "8 word list"

text \<open>\<open>struct Election\<close>; the field \<open>id\<close> is \<open>id_field\<close> here.\<close>

record Election =
  id_field :: uint256
  title :: string
  startTime :: uint256
  endTime :: uint256
  isActive :: bool
  isClosed :: bool
  totalVotes :: uint256
  candidatesMerkleRoot :: bytes32

record EncryptedVote =
  voteHash :: bytes32
  encryptedBallot :: bytes
  anonymousTokenHash :: bytes32
  timestamp :: uint256
  blockNumber :: uint256

text \<open>A storage slot that was never written reads as the all-zero value of its type.\<close>

definition default_Election :: Election where
  "default_Election =
     \<lparr>id_field = 0, title = [], startTime = 0, endTime = 0, isActive = False,
      isClosed = False, totalVotes = 0, candidatesMerkleRoot = 0\<rparr>"

definition default_EncryptedVote :: EncryptedVote where
  "default_EncryptedVote =
     \<lparr>voteHash = 0, encryptedBallot = [], anonymousTokenHash = 0, timestamp = 0, blockNumber = 0\<rparr>"

text \<open>The contract's storage; a Solidity mapping is a total function.\<close>

record VotingSystem =
  elections :: "uint256 \<Rightarrow> Election"
  votes :: "uint256 \<Rightarrow> bytes32 \<Rightarrow> EncryptedVote"
  usedTokens :: "uint256 \<Rightarrow> bytes32 \<Rightarrow> bool"
  electionVoteHashes :: "uint256 \<Rightarrow> bytes32 list"
  electionAuthority :: address
  electionCount :: uint256

text \<open>What a call sees of its transaction: \<open>msg.sender\<close>, \<open>block.timestamp\<close>, \<open>block.number\<close>.\<close>

record tx_env =
  msg_sender :: address
  block_timestamp :: uint256
  block_number :: uint256

datatype event =
    ElectionCreated uint256 string uint256 uint256
  | ElectionOpened uint256
  | ElectionClosed uint256 uint256
  | VoteCast uint256 bytes32 uint256
  | TokenRegistered uint256 bytes32

text \<open>
  The reverts, one per \<open>require\<close>, under the names the specification gives them:
  \<^item> \<open>Unauthorized\<close>: "Seule l'autorite electorale est autorisee";
  \<^item> \<open>ElectionNotFound\<close>: "L'election n'existe pas";
  \<^item> \<open>ElectionNotActive\<close>: "Election pas active" (\<open>FlagNotSet\<close>), "Election non encore
    ouverte" (\<open>BeforeStart\<close>), "Election terminee" (\<open>AfterEnd\<close>), "Election cloturee"
    (\<open>FlagClosed\<close>);
  \<^item> \<open>InvalidSchedule\<close>: "L'heure de debut doit etre dans le futur" (\<open>StartNotInFuture\<close>),
    "L'heure de fin doit etre posterieure a l'heure de debut" (\<open>EndNotAfterStart\<close>);
  \<^item> \<open>AlreadyOpen\<close>: "L'election est deja active";
  \<^item> \<open>AlreadyClosed\<close>: "L'election est deja cloturee";
  \<^item> \<open>NotOpen\<close>: "L'election n'est pas active";
  \<^item> \<open>TokenAlreadyRegistered\<close>: "Le token est deja enregistre";
  \<^item> \<open>TokenAlreadyUsed\<close>: "Token deja utilise ou invalide";
  \<^item> \<open>HashCollision\<close>: "Collision du hachage du vote";
  \<^item> \<open>ArithmeticOverflow\<close>: Panic(0x11) of a checked increment.
\<close>

datatype inactive_cause = FlagNotSet | BeforeStart | AfterEnd | FlagClosed

datatype schedule_fault = StartNotInFuture | EndNotAfterStart

datatype revert =
    Unauthorized
  | ElectionNotFound
  | ElectionNotActive inactive_cause
  | InvalidSchedule schedule_fault
  | AlreadyOpen
  | AlreadyClosed
  | NotOpen
  | TokenAlreadyRegistered
  | TokenAlreadyUsed
  | HashCollision
  | ArithmeticOverflow

text \<open>
  \<open>keccak256\<close> is a precompile of the platform, not code of the contract: it is the
  parameter \<open>K\<close>. \<open>abi.encodePacked\<close> writes a \<open>uint256\<close> or \<open>bytes32\<close> as its 32
  big-endian bytes and a \<open>bytes\<close> value as it is.
\<close>

type_synonym keccak = "bytes \<Rightarrow> bytes32"

definition be32 :: "256 word \<Rightarrow> bytes" where
  "be32 w = map (\<lambda>i. ucast (drop_bit (8 * (31 - i)) w)) [0..<32]"

definition voteHash_preimage :: "uint256 \<Rightarrow> bytes32 \<Rightarrow> bytes \<Rightarrow> uint256 \<Rightarrow> uint256 \<Rightarrow> bytes" where
  "voteHash_preimage electionId tokenHash ballot ts bn =
     be32 electionId @ be32 tokenHash @ ballot @ be32 ts @ be32 bn"

text \<open>The modifiers: \<open>None\<close> when every \<open>require\<close> passes, else the first revert.\<close>

definition onlyAuthority :: "tx_env \<Rightarrow> VotingSystem \<Rightarrow> revert option" where
  "onlyAuthority env s =
     (if msg_sender env = electionAuthority s then None else Some Unauthorized)"

definition electionExists :: "VotingSystem \<Rightarrow> uint256 \<Rightarrow> revert option" where
  "electionExists s electionId =
     (if id_field (elections s electionId) = electionId then None else Some ElectionNotFound)"

definition electionActive :: "tx_env \<Rightarrow> VotingSystem \<Rightarrow> uint256 \<Rightarrow> revert option" where
  "electionActive env s electionId =
     (let election = elections s electionId in
      if \<not> isActive election then Some (ElectionNotActive FlagNotSet)
      else if \<not> (block_timestamp env \<ge> startTime election) then Some (ElectionNotActive BeforeStart)
      else if \<not> (block_timestamp env \<le> endTime election) then Some (ElectionNotActive AfterEnd)
      else if isClosed election then Some (ElectionNotActive FlagClosed)
      else None)"

text \<open>\<open>constructor() { electionAuthority = msg.sender; electionCount = 0; }\<close>\<close>

definition constructor :: "tx_env \<Rightarrow> VotingSystem" where
  "constructor env =
     \<lparr>elections = (\<lambda>_. default_Election),
      votes = (\<lambda>_ _. default_EncryptedVote),
      usedTokens = (\<lambda>_ _. False),
      electionVoteHashes = (\<lambda>_. []),
      electionAuthority = msg_sender env,
      electionCount = 0\<rparr>"

text \<open>
  A call returns \<open>Inl\<close> the revert (storage untouched), or \<open>Inr\<close> the new storage, the
  events emitted and the return value.
\<close>

definition createElection ::
  "tx_env \<Rightarrow> string \<Rightarrow> uint256 \<Rightarrow> uint256 \<Rightarrow> bytes32 \<Rightarrow> VotingSystem
     \<Rightarrow> revert + (VotingSystem \<times> event list \<times> uint256)" where
  "createElection env title' startTime' endTime' candidatesMerkleRoot' s =
     (case onlyAuthority env s of Some e \<Rightarrow> Inl e | None \<Rightarrow>
      if \<not> (startTime' \<ge> block_timestamp env) then Inl (InvalidSchedule StartNotInFuture)
      else if \<not> (endTime' > startTime') then Inl (InvalidSchedule EndNotAfterStart)
      else if electionCount s = - 1 then Inl ArithmeticOverflow
      else
        (let electionId = electionCount s + 1;
             s1 = s\<lparr>electionCount := electionId\<rparr>;
             s2 = s1\<lparr>elections := (elections s1)(electionId :=
                    \<lparr>id_field = electionId, title = title', startTime = startTime',
                     endTime = endTime', isActive = False, isClosed = False,
                     totalVotes = 0, candidatesMerkleRoot = candidatesMerkleRoot'\<rparr>)\<rparr>
         in Inr (s2, [ElectionCreated electionId title' startTime' endTime'], electionId)))"

definition openElection ::
  "tx_env \<Rightarrow> uint256 \<Rightarrow> VotingSystem \<Rightarrow> revert + (VotingSystem \<times> event list \<times> unit)" where
  "openElection env electionId s =
     (case onlyAuthority env s of Some e \<Rightarrow> Inl e | None \<Rightarrow>
      case electionExists s electionId of Some e \<Rightarrow> Inl e | None \<Rightarrow>
      (let election = elections s electionId in
       if \<not> (\<not> isActive election) then Inl AlreadyOpen
       else if \<not> (\<not> isClosed election) then Inl AlreadyClosed
       else Inr (s\<lparr>elections := (elections s)(electionId := election\<lparr>isActive := True\<rparr>)\<rparr>,
                 [ElectionOpened electionId], ())))"

definition closeElection ::
  "tx_env \<Rightarrow> uint256 \<Rightarrow> VotingSystem \<Rightarrow> revert + (VotingSystem \<times> event list \<times> unit)" where
  "closeElection env electionId s =
     (case onlyAuthority env s of Some e \<Rightarrow> Inl e | None \<Rightarrow>
      case electionExists s electionId of Some e \<Rightarrow> Inl e | None \<Rightarrow>
      (let election = elections s electionId in
       if \<not> isActive election then Inl NotOpen
       else if \<not> (\<not> isClosed election) then Inl AlreadyClosed
       else Inr (s\<lparr>elections := (elections s)(electionId :=
                      election\<lparr>isActive := False, isClosed := True\<rparr>)\<rparr>,
                 [ElectionClosed electionId (totalVotes election)], ())))"

definition registerAnonymousToken ::
  "tx_env \<Rightarrow> uint256 \<Rightarrow> bytes32 \<Rightarrow> VotingSystem \<Rightarrow> revert + (VotingSystem \<times> event list \<times> unit)" where
  "registerAnonymousToken env electionId tokenHash s =
     (case onlyAuthority env s of Some e \<Rightarrow> Inl e | None \<Rightarrow>
      case electionExists s electionId of Some e \<Rightarrow> Inl e | None \<Rightarrow>
      if \<not> (\<not> usedTokens s electionId tokenHash) then Inl TokenAlreadyRegistered
      else Inr (s\<lparr>usedTokens := (usedTokens s)(electionId :=
                     (usedTokens s electionId)(tokenHash := False))\<rparr>,
                [TokenRegistered electionId tokenHash], ()))"

definition castVote ::
  "keccak \<Rightarrow> tx_env \<Rightarrow> uint256 \<Rightarrow> bytes32 \<Rightarrow> bytes \<Rightarrow> VotingSystem
     \<Rightarrow> revert + (VotingSystem \<times> event list \<times> bytes32)" where
  "castVote K env electionId anonymousTokenHash' encryptedBallot' s =
     (case electionActive env s electionId of Some e \<Rightarrow> Inl e | None \<Rightarrow>
      if \<not> (usedTokens s electionId anonymousTokenHash' = False) then Inl TokenAlreadyUsed
      else
        (let s1 = s\<lparr>usedTokens := (usedTokens s)(electionId :=
                      (usedTokens s electionId)(anonymousTokenHash' := True))\<rparr>;
             voteHash' = K (voteHash_preimage electionId anonymousTokenHash' encryptedBallot'
                              (block_timestamp env) (block_number env))
         in if \<not> (voteHash (votes s1 electionId voteHash') = 0) then Inl HashCollision
            else
              (let s2 = s1\<lparr>votes := (votes s1)(electionId := (votes s1 electionId)(voteHash' :=
                            \<lparr>voteHash = voteHash', encryptedBallot = encryptedBallot',
                             anonymousTokenHash = anonymousTokenHash',
                             timestamp = block_timestamp env,
                             blockNumber = block_number env\<rparr>))\<rparr>;
                   s3 = s2\<lparr>electionVoteHashes := (electionVoteHashes s2)(electionId :=
                            electionVoteHashes s2 electionId @ [voteHash'])\<rparr>
               in if totalVotes (elections s3 electionId) = - 1 then Inl ArithmeticOverflow
                  else
                    Inr (s3\<lparr>elections := (elections s3)(electionId :=
                              (elections s3 electionId)\<lparr>totalVotes :=
                                 totalVotes (elections s3 electionId) + 1\<rparr>)\<rparr>,
                         [VoteCast electionId voteHash' (block_timestamp env)],
                         voteHash'))))"

text \<open>The views.\<close>

definition verifyVoteInclusion :: "VotingSystem \<Rightarrow> uint256 \<Rightarrow> bytes32 \<Rightarrow> bool \<times> uint256 \<times> uint256" where
  "verifyVoteInclusion s electionId voteHash' =
     (let vote = votes s electionId voteHash'
      in (voteHash vote \<noteq> 0, timestamp vote, blockNumber vote))"

definition getElectionVoteHashes :: "VotingSystem \<Rightarrow> uint256 \<Rightarrow> bytes32 list" where
  "getElectionVoteHashes s electionId = electionVoteHashes s electionId"

definition getElection ::
  "VotingSystem \<Rightarrow> uint256 \<Rightarrow> string \<times> uint256 \<times> uint256 \<times> bool \<times> bool \<times> uint256" where
  "getElection s electionId =
     (let election = elections s electionId
      in (title election, startTime election, endTime election, isActive election,
          isClosed election, totalVotes election))"

text \<open>
  The external state-changing entry points as one type of calls, and a transaction:
  a call that did not revert, reduced to the storage it leaves.
\<close>

datatype call =
    CreateElection string uint256 uint256 bytes32
  | OpenElection uint256
  | CloseElection uint256
  | RegisterAnonymousToken uint256 bytes32
  | CastVote uint256 bytes32 bytes

fun transact :: "keccak \<Rightarrow> tx_env \<Rightarrow> call \<Rightarrow> VotingSystem \<Rightarrow> revert + VotingSystem" where
  "transact K env (CreateElection t st en r) s = map_sum id fst (createElection env t st en r s)"
| "transact K env (OpenElection e) s = map_sum id fst (openElection env e s)"
| "transact K env (CloseElection e) s = map_sum id fst (closeElection env e s)"
| "transact K env (RegisterAnonymousToken e t) s = map_sum id fst (registerAnonymousToken env e t s)"
| "transact K env (CastVote e t b) s = map_sum id fst (castVote K env e t b s)"

text \<open>The storages the contract can be in: deployed, then any number of transactions.\<close>

inductive reachable :: "keccak \<Rightarrow> VotingSystem \<Rightarrow> bool" for K :: keccak where
  deployed: "reachable K (constructor env)"
| transacted: "reachable K s \<Longrightarrow> transact K env c s = Inr s' \<Longrightarrow> reachable K s'"

text \<open>\<open>later K s s'\<close>: storage \<open>s'\<close> comes from \<open>s\<close> by zero or more transactions.\<close>

inductive later :: "keccak \<Rightarrow> VotingSystem \<Rightarrow> VotingSystem \<Rightarrow> bool" for K :: keccak and s :: VotingSystem where
  now: "later K s s"
| after: "later K s s' \<Longrightarrow> transact K env c s' = Inr s'' \<Longrightarrow> later K s s''"

text \<open>
  The lifecycle phase of an election, read from its two flags: \<open>Created\<close> (neither
  set), \<open>Opened\<close> (\<open>isActive\<close>), \<open>Closed\<close> (\<open>isClosed\<close>).
\<close>

datatype phase = Created | Opened | Closed

definition phase_of :: "Election \<Rightarrow> phase" where
  "phase_of election =
     (if isClosed election then Closed else if isActive election then Opened else Created)"

text \<open>
  A concrete digest standing in for \<open>keccak256\<close> where a statement is evaluated on an
  explicit run. The general theorems hold for every \<open>K\<close>.
\<close>

definition sampleDigest :: keccak where
  "sampleDigest bs = of_nat (length bs) + 1"

text \<open>
  A concrete run for evaluating statements: the authority (address 1) acts at time
  900, a voter (address 2) at time 1500; \<open>sample_ledger active closed\<close> is the storage
  with one election, number 1, running from 1000 to 2000, with the given flags;
  \<open>sample_voted\<close> is that storage after one vote with token 77 and ballot
  \<open>[1, 2, 3]\<close>.
\<close>

definition sample_authority_env :: tx_env where
  "sample_authority_env = \<lparr>msg_sender = 1, block_timestamp = 900, block_number = 5\<rparr>"

definition sample_voter_env :: tx_env where
  "sample_voter_env = \<lparr>msg_sender = 2, block_timestamp = 1500, block_number = 6\<rparr>"

definition sample_ledger :: "bool \<Rightarrow> bool \<Rightarrow> VotingSystem" where
  "sample_ledger active closed =
     \<lparr>elections = (\<lambda>_. default_Election)(1 :=
        \<lparr>id_field = 1, title = ''Vote'', startTime = 1000, endTime = 2000,
         isActive = active, isClosed = closed, totalVotes = 0, candidatesMerkleRoot = 0\<rparr>),
      votes = (\<lambda>_ _. default_EncryptedVote),
      usedTokens = (\<lambda>_ _. False),
      electionVoteHashes = (\<lambda>_. []),
      electionAuthority = 1,
      electionCount = 1\<rparr>"

definition sample_voted :: VotingSystem where
  "sample_voted =
     \<lparr>elections = (\<lambda>_. default_Election)(1 :=
        \<lparr>id_field = 1, title = ''Vote'', startTime = 1000, endTime = 2000,
         isActive = True, isClosed = False, totalVotes = 1, candidatesMerkleRoot = 0\<rparr>),
      votes = (\<lambda>_ _. default_EncryptedVote)(1 := (\<lambda>_. default_EncryptedVote)(132 :=
        \<lparr>voteHash = 132, encryptedBallot = [1, 2, 3], anonymousTokenHash = 77,
         timestamp = 1500, blockNumber = 6\<rparr>)),
      usedTokens = (\<lambda>_ _. False)(1 := (\<lambda>_. False)(77 := True)),
      electionVoteHashes = (\<lambda>_. [])(1 := [132]),
      electionAuthority = 1,
      electionCount = 1\<rparr>"


section \<open>The eligibility circuit (voter_eligibility.circom)\<close>

text \<open>
  The fifth document of src/benchmark/k6-vote-simulation-fixed.js. Signals are
  elements of the scalar field of the curve bn128 (\<open>snarkjs powersoftau new bn128\<close>),
  integers modulo the prime below; an input is taken modulo that prime. The circomlib
  components \<open>Poseidon(2)\<close> and \<open>Poseidon(3)\<close> are the parameters \<open>H\<close> and \<open>P3\<close>.
\<close>

definition bn128_r :: int where
  "bn128_r = 21888242871839275222246405745257275088548364400416034343698204186575808495617"

type_synonym poseidon3 = "int \<Rightarrow> int \<Rightarrow> int \<Rightarrow> int"

text \<open>circomlib's \<open>IsZero\<close>: \<open>out = 1\<close> when \<open>in = 0\<close>, else \<open>out = 0\<close>.\<close>

definition IsZero :: "int \<Rightarrow> int" where
  "IsZero x = (if x = 0 then 1 else 0)"

text \<open>
  \<^verbatim>\<open>
  template Selector() {
      left <== left_input + (right_input - left_input) * s;
      right <== right_input + (left_input - right_input) * s;
  }
  \<close>
\<close>

definition Selector :: "int \<Rightarrow> int \<Rightarrow> int \<Rightarrow> int \<times> int" where
  "Selector left_input right_input s =
     ((left_input + (right_input - left_input) * s) mod bn128_r,
      (right_input + (left_input - right_input) * s) mod bn128_r)"

text \<open>
  The loop of \<open>MerkleTreeChecker(levels)\<close>, from \<open>levelHashes[i]\<close> to the last one:
  \<^verbatim>\<open>
      isZero[i].in <== pathElements[i];
      selectors[i].left_input <== levelHashes[i];
      selectors[i].right_input <== pathElements[i];
      selectors[i].s <== pathIndices[i];
      hashers[i].inputs[0] <== selectors[i].left;
      hashers[i].inputs[1] <== selectors[i].right;
      levelHashes[i + 1] <== levelHashes[i]
          + (hashers[i].out - levelHashes[i]) * (1 - isZero[i].out);
  \<close>
\<close>

fun levelHashes :: "hasher \<Rightarrow> int list \<Rightarrow> int list \<Rightarrow> int \<Rightarrow> int" where
  "levelHashes H (el # els) (s # ss) cur =
     (let isZero = IsZero el;
          (left, right) = Selector cur el s;
          out = H left right mod bn128_r
      in levelHashes H els ss ((cur + (out - cur) * (1 - isZero)) mod bn128_r))"
| "levelHashes H els ss cur = cur"

text \<open>The constraint \<open>root === levelHashes[levels]\<close>.\<close>

definition MerkleTreeChecker :: "hasher \<Rightarrow> int \<Rightarrow> int \<Rightarrow> int list \<Rightarrow> int list \<Rightarrow> bool" where
  "MerkleTreeChecker H leaf root pathElements' pathIndices' =
     (root = levelHashes H pathElements' pathIndices' leaf)"

text \<open>
  \<open>template VoterEligibility()\<close>: the output signal \<open>nullifier\<close> for a set of inputs,
  \<open>None\<close> when the inputs do not fit the two arrays of 20 signals or violate the
  Merkle constraint (no witness exists, and the prover throws).
  \<^verbatim>\<open>
      component nullifierHash = Poseidon(3);
      nullifierHash.inputs[0] <== voterNationalId;
      nullifierHash.inputs[1] <== voterSecret;
      nullifierHash.inputs[2] <== electionId;
      nullifier <== nullifierHash.out;
  \<close>
\<close>

definition VoterEligibility ::
  "hasher \<Rightarrow> poseidon3 \<Rightarrow> int \<Rightarrow> int \<Rightarrow> int list \<Rightarrow> int list \<Rightarrow> int \<Rightarrow> int \<Rightarrow> int option" where
  "VoterEligibility H P3 voterNationalId voterSecret merklePathElements merklePathIndices
       merkleRoot electionId =
     (let leaf = voterNationalId mod bn128_r;
          secret = voterSecret mod bn128_r;
          els = map (\<lambda>x. x mod bn128_r) merklePathElements;
          ids = map (\<lambda>x. x mod bn128_r) merklePathIndices;
          root = merkleRoot mod bn128_r;
          election = electionId mod bn128_r
      in if length els \<noteq> 20 \<or> length ids \<noteq> 20 then None
         else if \<not> MerkleTreeChecker H leaf root els ids then None
         else Some (P3 leaf secret election mod bn128_r))"

text \<open>
  \<open>component main {public [merkleRoot, electionId]} = VoterEligibility();\<close>: the
  public signals of a proof are the output followed by the public inputs, as
  zkp-server.js reads them (\<open>nullifier: publicSignals[0], merkleRoot: publicSignals[1],
  electionId: publicSignals[2]\<close>).
\<close>

definition circuit_publicSignals ::
  "hasher \<Rightarrow> poseidon3 \<Rightarrow> int \<Rightarrow> int \<Rightarrow> int list \<Rightarrow> int list \<Rightarrow> int \<Rightarrow> int \<Rightarrow> int list option" where
  "circuit_publicSignals H P3 voterNationalId voterSecret merklePathElements merklePathIndices
       merkleRoot electionId =
     (case VoterEligibility H P3 voterNationalId voterSecret merklePathElements
             merklePathIndices merkleRoot electionId of
        None \<Rightarrow> None
      | Some nullifierOut \<Rightarrow> Some [nullifierOut, merkleRoot mod bn128_r, electionId mod bn128_r])"

definition samplePoseidon3 :: poseidon3 where
  "samplePoseidon3 a b c = 5 * a + 7 * b + 11 * c + 1"

section \<open>The benchmark's proof helper (src/benchmark/zkp-helper.js, class ZKPHelper)\<close>

text \<open>
  \<open>ethers.keccak256\<close> is again the parameter \<open>K\<close>; \<open>ethers.solidityPacked(["bytes32",
  "bytes32"], [voterId, secretCode])\<close> is the two 32-byte values one after the other.
  \<^verbatim>\<open>
  /** Genere un nullifier unique (hash de voterId + secretCode) */
  generateNullifier(voterId, secretCode) {
    return ethers.keccak256(
      ethers.solidityPacked(["bytes32", "bytes32"], [voterId, secretCode]));
  }
  \<close>
\<close>

definition generateNullifier :: "keccak \<Rightarrow> bytes32 \<Rightarrow> bytes32 \<Rightarrow> bytes32" where
  "generateNullifier K voterId secretCode = K (be32 voterId @ be32 secretCode)"

text \<open>
  The voter index and the election id are JavaScript numbers used as loop counters
  and ids: non-negative integers below \<open>2 ^ 53\<close>, the type \<open>53 word\<close>. On these
  \<open>String(index)\<close> and \<open>electionId.toString()\<close> print the decimal digits (from
  \<open>10 ^ 21\<close> on JavaScript prints an exponent instead, and above \<open>2 ^ 53\<close> not every
  integer is a number). \<open>ethers.toUtf8Bytes\<close> is taken on ASCII strings only.
\<close>

type_synonym safe_integer = "53 word"

function decimal :: "nat \<Rightarrow> string" where
  "decimal n = (if n < 10 then [char_of (48 + n)] else decimal (n div 10) @ [char_of (48 + n mod 10)])"
  by pat_completeness auto
termination
  by (relation "measure id") auto

definition js_String :: "safe_integer \<Rightarrow> string" where
  "js_String index = decimal (unat index)"

definition padStart10 :: "string \<Rightarrow> string" where
  "padStart10 str = replicate (10 - length str) (CHR ''0'') @ str"

definition toUtf8Bytes :: "string \<Rightarrow> bytes" where
  "toUtf8Bytes str = map of_char str"

text \<open>
  \<^verbatim>\<open>
  generateVoterId(index) {
    const cni = `CNI${String(index).padStart(10, "0")}`;
    return ethers.keccak256(ethers.toUtf8Bytes(cni));
  }
  generateSecretCode(index) {
    const secret = `SECRET${String(index).padStart(10, "0")}`;
    return ethers.keccak256(ethers.toUtf8Bytes(secret));
  }
  \<close>
\<close>

definition generateVoterId :: "keccak \<Rightarrow> safe_integer \<Rightarrow> bytes32" where
  "generateVoterId K index = K (toUtf8Bytes (''CNI'' @ padStart10 (js_String index)))"

definition generateSecretCode :: "keccak \<Rightarrow> safe_integer \<Rightarrow> bytes32" where
  "generateSecretCode K index = K (toUtf8Bytes (''SECRET'' @ padStart10 (js_String index)))"

text \<open>
  What the proof functions return: \<open>{ proof, publicSignals, nullifier }\<close>. The field
  \<open>proof\<close>, the prover's group elements (random bytes in the mock), is left out; the
  other two are 32-byte values printed in hexadecimal.
\<close>

record VoteProof =
  publicSignals :: "bytes32 list"
  nullifier :: bytes32

datatype proof_error = FullProveFailed

text \<open>
  \<^verbatim>\<open>
  generateMockProof(voterId, secretCode, candidateId, merkleRoot) {
    const nullifier = this.generateNullifier(voterId, secretCode);
    ...
    const publicSignals = [nullifier, merkleRoot];
    return { proof, publicSignals, nullifier };
  }
  \<close>
\<close>

definition generateMockProof :: "keccak \<Rightarrow> bytes32 \<Rightarrow> bytes32 \<Rightarrow> string \<Rightarrow> bytes32 \<Rightarrow> VoteProof" where
  "generateMockProof K voterId secretCode candidateId merkleRoot =
     (let nullifier' = generateNullifier K voterId secretCode
      in \<lparr>publicSignals = [nullifier', merkleRoot], nullifier = nullifier'\<rparr>)"

text \<open>
  \<open>generateVoteProofWithMerklePath(voterIndex, candidateId, merkleRoot, merklePath,
  electionId = 1)\<close>, with the flag \<open>this.isReady\<close>:
  \<^verbatim>\<open>
    const voterId = this.generateVoterId(voterIndex);
    const secretCode = this.generateSecretCode(voterIndex);
    const nullifier = this.generateNullifier(voterId, secretCode);
    if (!this.isReady) {
        return this.generateMockProof(voterId, secretCode, candidateId, merkleRoot);
    }
    try {
        const input = {
            voterNationalId: this.bigIntFromHash(voterId).toString(),
            voterSecret: this.bigIntFromHash(secretCode).toString(),
            merklePathElements: pathElements,
            merklePathIndices: pathIndices,
            merkleRoot: BigInt(merkleRoot).toString(),
            electionId: electionId.toString()
        };
        const { proof, publicSignals } = await groth16.fullProve(input, ...);
        return {
            proof: solidityProof,
            publicSignals: publicSignals.map(s => '0x' + BigInt(s).toString(16).padStart(64, '0')),
            nullifier: '0x' + this.bigIntFromHash(nullifier).toString(16).padStart(64, '0')
        };
    } catch (error) { ...; throw error; }
  \<close>
  \<open>groth16.fullProve\<close> runs the circuit above on the input: it throws when the
  constraints cannot be met, and its public signals are the circuit's.
\<close>

definition generateVoteProofWithMerklePath ::
  "keccak \<Rightarrow> hasher \<Rightarrow> poseidon3 \<Rightarrow> bool \<Rightarrow> safe_integer \<Rightarrow> string \<Rightarrow> bytes32 \<Rightarrow> MerklePath
     \<Rightarrow> safe_integer \<Rightarrow> proof_error + VoteProof" where
  "generateVoteProofWithMerklePath K H P3 isReady voterIndex candidateId merkleRoot merklePath
       electionId =
     (let voterId = generateVoterId K voterIndex;
          secretCode = generateSecretCode K voterIndex;
          nullifier' = generateNullifier K voterId secretCode
      in if \<not> isReady then Inr (generateMockProof K voterId secretCode candidateId merkleRoot)
         else
           (case circuit_publicSignals H P3 (uint voterId) (uint secretCode)
                   (elements merklePath) (map int (indices merklePath))
                   (uint merkleRoot) (uint electionId) of
              None \<Rightarrow> Inl FullProveFailed
            | Some signals \<Rightarrow>
                Inr \<lparr>publicSignals = map word_of_int signals, nullifier = nullifier'\<rparr>))"


section \<open>Properties of the Merkle membership index\<close>

declare buildTree_loop.simps [simp del]

lemma length_nextLevel: "length (nextLevel H level) = (length level + 1) div 2"
  by (induction H level rule: nextLevel.induct) simp_all

lemma buildTree_loop_acc:
  "buildTree_loop H (acc @ tr) level = acc @ buildTree_loop H tr level"
proof (induction H tr level arbitrary: acc rule: buildTree_loop.induct)
  case (1 H tr level)
  show ?case
  proof (cases "length level > 1")
    case True
    have "buildTree_loop H (acc @ tr) level
          = buildTree_loop H (acc @ (tr @ [nextLevel H level])) (nextLevel H level)"
      using True by (subst buildTree_loop.simps) (simp add: Let_def)
    also have "\<dots> = acc @ buildTree_loop H (tr @ [nextLevel H level]) (nextLevel H level)"
      using "1.IH" [OF True refl] by simp
    also have "\<dots> = acc @ buildTree_loop H tr level"
      using True by (subst (2) buildTree_loop.simps) (simp add: Let_def)
    finally show ?thesis .
  next
    case False
    then show ?thesis by (simp add: buildTree_loop.simps)
  qed
qed

lemma buildTree_unfold:
  "buildTree H level =
     level # (if length level > 1 then buildTree H (nextLevel H level) else [])"
proof (cases "length level > 1")
  case True
  have "buildTree H level = buildTree_loop H ([level] @ [nextLevel H level]) (nextLevel H level)"
    using True unfolding buildTree_def by (subst buildTree_loop.simps) (simp add: Let_def)
  also have "\<dots> = [level] @ buildTree_loop H [nextLevel H level] (nextLevel H level)"
    by (rule buildTree_loop_acc)
  finally show ?thesis using True by (simp add: buildTree_def)
next
  case False
  then show ?thesis unfolding buildTree_def by (subst buildTree_loop.simps) simp
qed

lemma buildTree_nonempty: "buildTree H level \<noteq> []"
  by (subst buildTree_unfold) simp

lemma buildTree_hd: "hd (buildTree H level) = level"
  by (subst buildTree_unfold) simp

lemma buildTree_level_step:
  "Suc k < length (buildTree H level) \<Longrightarrow>
   buildTree H level ! Suc k = nextLevel H (buildTree H level ! k)"
proof (induction k arbitrary: level)
  case 0
  then have big: "length level > 1"
    by (subst (asm) buildTree_unfold) (simp split: if_splits)
  have "buildTree H level ! Suc 0 = hd (buildTree H (nextLevel H level))"
    using big buildTree_nonempty [of H "nextLevel H level"]
    by (subst buildTree_unfold) (simp add: hd_conv_nth)
  moreover have "buildTree H level ! 0 = level"
    by (subst buildTree_unfold) simp
  ultimately show ?case by (simp add: buildTree_hd)
next
  case (Suc k)
  then have big: "length level > 1"
    by (subst (asm) buildTree_unfold) (simp split: if_splits)
  then have eq: "buildTree H level = level # buildTree H (nextLevel H level)"
    by (subst buildTree_unfold) simp
  from Suc.prems eq have "Suc k < length (buildTree H (nextLevel H level))" by simp
  from Suc.IH [OF this] show ?case by (simp add: eq)
qed

lemma nextLevel_Nil_iff: "nextLevel H level = [] \<longleftrightarrow> level = []"
  by (induction H level rule: nextLevel.induct) simp_all

lemma nextLevel_last_odd:
  "odd (length level) \<Longrightarrow> last (nextLevel H level) = H (last level) (last level)"
  by (induction H level rule: nextLevel.induct) (auto simp: nextLevel_Nil_iff)

lemma nextLevel_snoc_even:
  "even (length xs) \<Longrightarrow> nextLevel H (xs @ [x]) = nextLevel H xs @ [H x x]"
  by (induction H xs rule: nextLevel.induct) auto

lemma nextLevel_nth:
  "i < length level \<Longrightarrow>
   nextLevel H level ! (i div 2) =
     (if odd i then H (level ! (i - 1)) (level ! i)
      else if i + 1 < length level then H (level ! i) (level ! (i + 1))
      else H (level ! i) (level ! i))"
proof (induction H level arbitrary: i rule: nextLevel.induct)
  case (1 H l r rest)
  show ?case
  proof (cases "i < 2")
    case True
    then have "i = 0 \<or> i = 1" by auto
    then show ?thesis by auto
  next
    case False
    then obtain j where j: "i = j + 2" by (metis add.commute le_Suc_ex not_less)
    with "1.prems" have jl: "j < length rest" by simp
    have d: "(j + 2) div 2 = Suc (j div 2)" by simp
    show ?thesis using "1.IH" [OF jl] unfolding j d by (auto simp: nth_Cons')
  qed
next
  case (2 H l)
  then show ?case by simp
next
  case (3 H)
  then show ?case by simp
qed

lemma getProof_loop_acc:
  "getProof_loop layers els ids i =
     (case getProof_loop layers [] [] i of
        Inl e \<Rightarrow> Inl e
      | Inr (a, b) \<Rightarrow> Inr (els @ a, ids @ b))"
proof (induction layers arbitrary: els ids i)
  case Nil
  show ?case by simp
next
  case (Cons layer layers)
  show ?case
  proof (cases "nullish (at_index layer (if i mod 2 \<noteq> 0 then i - 1 else i + 1)) (at_index layer i)")
    case None
    then show ?thesis by (simp add: Let_def)
  next
    case (Some sibling)
    show ?thesis
      using Some
      by (simp add: Let_def Cons.IH [of "els @ [sibling]" "ids @ [i mod 2]"]
            Cons.IH [of "[sibling]" "[i mod 2]"] split: sum.splits prod.splits)
  qed
qed

lemma manualFold_shift:
  "manualFold H els (b # ids) (Suc k) cur = manualFold H els ids k cur"
  by (induction els arbitrary: k cur) (simp_all add: at_index_def Let_def)

lemma manualFold_zeros: "manualFold H (replicate n 0) ids k cur = cur"
  by (induction n arbitrary: k) simp_all

lemma manualFold_append:
  "manualFold H (xs @ ys) ids k cur =
     manualFold H ys ids (k + length xs) (manualFold H xs ids k cur)"
  by (induction xs arbitrary: k cur) (simp_all add: Let_def)

lemma nullish_sibling:
  "i < length layer \<Longrightarrow>
   nullish (at_index layer (if i mod 2 \<noteq> 0 then i - 1 else i + 1)) (at_index layer i)
     = Some (sibling_or_self layer i)"
  by (auto simp: nullish_def at_index_def sibling_or_self_def odd_iff_mod_2_eq_one)

lemma fold_one_level:
  assumes "i < length level" "sibling_or_self level i \<noteq> 0"
  shows "(let isRight = Some (i mod 2);
              left = (if isRight = Some 1 then sibling_or_self level i else level ! i);
              right = (if isRight = Some 1 then level ! i else sibling_or_self level i)
          in H left right) = nextLevel H level ! (i div 2)"
  using assms nextLevel_nth [of i level H]
  by (auto simp: sibling_or_self_def Let_def odd_iff_mod_2_eq_one)


lemma buildTree_small: "length level \<le> 1 \<Longrightarrow> buildTree H level = [level]"
  by (subst buildTree_unfold) simp

lemma buildTree_big:
  "1 < length level \<Longrightarrow> buildTree H level = level # buildTree H (nextLevel H level)"
  by (subst buildTree_unfold) simp

lemma butlast_buildTree_big:
  "1 < length level \<Longrightarrow>
   butlast (buildTree H level) = level # butlast (buildTree H (nextLevel H level))"
  by (simp add: buildTree_big buildTree_nonempty)

lemma last_buildTree_big:
  "1 < length level \<Longrightarrow> last (buildTree H level) = last (buildTree H (nextLevel H level))"
  by (simp add: buildTree_big buildTree_nonempty)

lemma getProof_loop_step:
  assumes "i < length level"
  shows "getProof_loop (level # layers) [] [] i =
           (case getProof_loop layers [] [] (i div 2) of
              Inl e \<Rightarrow> Inl e
            | Inr (a, b) \<Rightarrow> Inr (sibling_or_self level i # a, (i mod 2) # b))"
proof -
  have "getProof_loop (level # layers) [] [] i =
          getProof_loop layers [sibling_or_self level i] [i mod 2] (i div 2)"
    by (simp only: getProof_loop.simps Let_def nullish_sibling [OF assms] option.case append_Nil)
  also have "\<dots> = (case getProof_loop layers [] [] (i div 2) of
              Inl e \<Rightarrow> Inl e
            | Inr (a, b) \<Rightarrow> Inr (sibling_or_self level i # a, (i mod 2) # b))"
    by (subst getProof_loop_acc) (simp split: sum.splits)
  finally show ?thesis .
qed

lemma half_index_in_range: "i < length level \<Longrightarrow> i div 2 < length (nextLevel H level)"
  by (simp add: length_nextLevel)

lemma getProof_loop_shape:
  "i < length level \<Longrightarrow>
   \<exists>els ids. getProof_loop (butlast (buildTree H level)) [] [] i = Inr (els, ids)
     \<and> length els = length (buildTree H level) - 1
     \<and> length ids = length (buildTree H level) - 1
     \<and> (\<forall>k < length (buildTree H level) - 1.
            i div 2 ^ k < length (buildTree H level ! k)
          \<and> els ! k = sibling_or_self (buildTree H level ! k) (i div 2 ^ k)
          \<and> ids ! k = (i div 2 ^ k) mod 2)"
proof (induction level arbitrary: i rule: measure_induct_rule [where f = length])
  case (less level)
  show ?case
  proof (cases "1 < length level")
    case False
    then show ?thesis by (simp add: buildTree_small)
  next
    case True
    let ?next = "nextLevel H level"
    have shorter: "length ?next < length level"
      using True by (simp add: length_nextLevel)
    have inr: "i div 2 < length ?next"
      using less.prems by (rule half_index_in_range)
    from less.IH [OF shorter inr] obtain a b where
      ab: "getProof_loop (butlast (buildTree H ?next)) [] [] (i div 2) = Inr (a, b)"
      and la: "length a = length (buildTree H ?next) - 1"
      and lb: "length b = length (buildTree H ?next) - 1"
      and nth: "\<forall>k < length (buildTree H ?next) - 1.
            i div 2 div 2 ^ k < length (buildTree H ?next ! k)
          \<and> a ! k = sibling_or_self (buildTree H ?next ! k) (i div 2 div 2 ^ k)
          \<and> b ! k = (i div 2 div 2 ^ k) mod 2"
      by blast
    have run: "getProof_loop (butlast (buildTree H level)) [] [] i =
                 Inr (sibling_or_self level i # a, (i mod 2) # b)"
      by (simp add: butlast_buildTree_big [OF True] getProof_loop_step [OF less.prems] ab
            del: getProof_loop.simps)
    have len: "length (buildTree H level) - 1 = Suc (length (buildTree H ?next) - 1)"
      using buildTree_nonempty [of H ?next] by (simp add: buildTree_big [OF True])
    have pw: "i div 2 div 2 ^ k = i div 2 ^ Suc k" for k
      by (simp add: div_mult2_eq)
    have each: "i div 2 ^ k < length (buildTree H level ! k)
          \<and> (sibling_or_self level i # a) ! k = sibling_or_self (buildTree H level ! k) (i div 2 ^ k)
          \<and> ((i mod 2) # b) ! k = (i div 2 ^ k) mod 2"
      if "k < Suc (length (buildTree H ?next) - 1)" for k
    proof (cases k)
      case 0
      then show ?thesis using less.prems by (simp add: buildTree_big [OF True])
    next
      case (Suc j)
      with that have "j < length (buildTree H ?next) - 1" by simp
      with nth have "i div 2 div 2 ^ j < length (buildTree H ?next ! j)
          \<and> a ! j = sibling_or_self (buildTree H ?next ! j) (i div 2 div 2 ^ j)
          \<and> b ! j = (i div 2 div 2 ^ j) mod 2" by blast
      then show ?thesis unfolding pw Suc by (simp add: buildTree_big [OF True])
    qed
    show ?thesis
      using run la lb each unfolding len by auto
  qed
qed

lemma getProof_loop_fold:
  "i < length level \<Longrightarrow>
   getProof_loop (butlast (buildTree H level)) [] [] i = Inr (els, ids) \<Longrightarrow>
   0 \<notin> set els \<Longrightarrow>
   manualFold H els ids 0 (level ! i) = hd (last (buildTree H level))"
proof (induction level arbitrary: i els ids rule: measure_induct_rule [where f = length])
  case (less level)
  show ?case
  proof (cases "1 < length level")
    case False
    with less.prems have "i = 0" and "level \<noteq> []" by auto
    with False less.prems show ?thesis by (auto simp: buildTree_small hd_conv_nth)
  next
    case True
    let ?next = "nextLevel H level"
    let ?sib = "sibling_or_self level i"
    have shorter: "length ?next < length level"
      using True by (simp add: length_nextLevel)
    have inr: "i div 2 < length ?next"
      using less.prems(1) by (rule half_index_in_range)
    from less.prems(2) obtain a b where
      ab: "getProof_loop (butlast (buildTree H ?next)) [] [] (i div 2) = Inr (a, b)"
      and els: "els = ?sib # a" and ids: "ids = (i mod 2) # b"
      by (auto simp: butlast_buildTree_big [OF True] getProof_loop_step [OF less.prems(1)]
               simp del: getProof_loop.simps split: sum.splits prod.splits)
    from less.prems(3) els have nz: "?sib \<noteq> 0" and nza: "0 \<notin> set a" by auto
    have "manualFold H els ids 0 (level ! i)
          = manualFold H a ((i mod 2) # b) (Suc 0) (?next ! (i div 2))"
      using nz fold_one_level [OF less.prems(1) nz, of H]
      by (simp add: els ids at_index_def Let_def)
    also have "\<dots> = manualFold H a b 0 (?next ! (i div 2))"
      by (rule manualFold_shift)
    also have "\<dots> = hd (last (buildTree H ?next))"
      by (rule less.IH [OF shorter inr ab nza])
    finally show ?thesis by (simp add: last_buildTree_big [OF True])
  qed
qed

lemma buildTree_height_upper:
  "length level \<le> 2 ^ k \<Longrightarrow> length (buildTree H level) \<le> Suc k"
proof (induction k arbitrary: level)
  case 0
  then show ?case by (simp add: buildTree_small)
next
  case (Suc k)
  show ?case
  proof (cases "1 < length level")
    case False
    then show ?thesis by (simp add: buildTree_small)
  next
    case True
    have "length (nextLevel H level) \<le> 2 ^ k"
      using Suc.prems by (simp add: length_nextLevel)
    from Suc.IH [OF this] show ?thesis by (simp add: buildTree_big [OF True])
  qed
qed

lemma buildTree_height_lower:
  "2 ^ k < length level \<Longrightarrow> Suc k < length (buildTree H level)"
proof (induction k arbitrary: level)
  case 0
  then show ?case using buildTree_nonempty [of H "nextLevel H level"]
    by (cases "buildTree H (nextLevel H level)") (simp_all add: buildTree_big)
next
  case (Suc k)
  then have big: "1 < length level"
    by (metis less_trans one_less_numeral_iff one_less_power semiring_norm(76) zero_less_Suc)
  have "2 ^ k < length (nextLevel H level)"
    using Suc.prems by (simp add: length_nextLevel)
  from Suc.IH [OF this] show ?case by (simp add: buildTree_big [OF big])
qed


lemma last_buildTree_singleton:
  "level \<noteq> [] \<Longrightarrow> length (last (buildTree H level)) = 1"
proof (induction level rule: measure_induct_rule [where f = length])
  case (less level)
  show ?case
  proof (cases "1 < length level")
    case False
    with less.prems have "length level = 1" by (cases level) auto
    then show ?thesis by (simp add: buildTree_small)
  next
    case True
    have "length (nextLevel H level) < length level"
      using True by (simp add: length_nextLevel)
    moreover have "nextLevel H level \<noteq> []"
      using less.prems by (simp add: nextLevel_Nil_iff)
    ultimately show ?thesis
      using less.IH by (simp add: last_buildTree_big [OF True])
  qed
qed

lemma getRoot_new_MerkleTree:
  assumes "L \<noteq> []"
  shows "getRoot \<lparr>leaves = L, tree = buildTree H L\<rparr> = Inr (hd (last (buildTree H L)))"
proof -
  have ne: "buildTree H L \<noteq> []" by (rule buildTree_nonempty)
  have one: "length (last (buildTree H L)) = 1"
    using assms by (rule last_buildTree_singleton)
  then have "last (buildTree H L) \<noteq> []" by auto
  then show ?thesis
    using ne one by (simp add: getRoot_def at_index_def last_conv_nth hd_conv_nth)
qed

lemma manualFold_ids_append:
  "k + length els \<le> length ids \<Longrightarrow>
   manualFold H els (ids @ zs) k cur = manualFold H els ids k cur"
  by (induction els arbitrary: k cur) (simp_all add: at_index_def Let_def nth_append)

lemma manualFold_padded:
  assumes "length ids = length els"
  shows "manualFold H (pad_to_depth 0 els) (pad_to_depth 0 ids) 0 cur = manualFold H els ids 0 cur"
  using assms
  by (simp add: pad_to_depth_def manualFold_append manualFold_zeros manualFold_ids_append)

lemma length_pad_to_depth: "length (pad_to_depth z xs) = max TREE_DEPTH (length xs)"
  by (simp add: pad_to_depth_def)


subsection \<open>Odd levels\<close>

text \<open>
  In the server's class every level of the tree after the first is \<open>nextLevel\<close> of
  the level below, and the unpaired last node of an odd level that is not the root
  level is hashed with a copy of itself.
\<close>

lemma buildTree_odd_level_hashes_last_with_itself:
  "(Suc k < length (buildTree H L) \<and> odd (length (buildTree H L ! k)) \<longrightarrow>
      buildTree H L ! Suc k = nextLevel H (buildTree H L ! k)
    \<and> last (buildTree H L ! Suc k) = H (last (buildTree H L ! k)) (last (buildTree H L ! k)))
   \<and> buildTree H [a, b, c] ! 1 = [H a b, H c c]"
proof -
  have abc: "buildTree H [a, b, c] ! 1 = [H a b, H c c]"
    by (simp add: buildTree_def buildTree_loop.simps)
  have "buildTree H L ! Suc k = nextLevel H (buildTree H L ! k)
        \<and> last (buildTree H L ! Suc k) = H (last (buildTree H L ! k)) (last (buildTree H L ! k))"
    if "Suc k < length (buildTree H L)" and "odd (length (buildTree H L ! k))"
    using buildTree_level_step [OF that(1)] nextLevel_last_odd [OF that(2), of H] by simp
  with abc show ?thesis by blast
qed

text \<open>
  In the benchmark's class the unpaired last node of an odd level is carried to the
  next level unchanged, and leaves \<open>[a, b, c]\<close> give level 1 equal to
  \<open>[H a b, c]\<close> (for \<open>b\<close> other than 0, which that class takes for padding).
\<close>

lemma helper_pairs_Nil_iff: "helper_pairs H lvl = [] \<longleftrightarrow> lvl = []"
  by (induction H lvl rule: helper_pairs.induct) simp_all

lemma helper_pairs_last_odd:
  "odd (length lvl) \<Longrightarrow> last (helper_pairs H lvl) = last lvl"
  by (induction H lvl rule: helper_pairs.induct) (auto simp: helper_pairs_Nil_iff)

lemma helper_nextLevel_last_odd:
  "odd (length lvl) \<Longrightarrow> last (helper_nextLevel H lvl) = last lvl"
proof -
  assume o: "odd (length lvl)"
  then have "lvl \<noteq> []" by auto
  then have "helper_pairs H lvl \<noteq> []" by (simp add: helper_pairs_Nil_iff)
  with helper_pairs_last_odd [OF o] show ?thesis by (simp add: helper_nextLevel_def)
qed

lemma length_helper_levels: "length (helper_levels H n lvl) = Suc n"
  by (induction n arbitrary: lvl) simp_all

lemma helper_levels_step:
  "k < n \<Longrightarrow> helper_levels H n lvl ! Suc k = helper_nextLevel H (helper_levels H n lvl ! k)"
proof (induction n arbitrary: lvl k)
  case 0
  then show ?case by simp
next
  case (Suc n)
  show ?case
  proof (cases k)
    case 0
    then show ?thesis by (cases n) simp_all
  next
    case (Suc j)
    with Suc.prems have "j < n" by simp
    from Suc.IH [OF this] show ?thesis by (simp add: Suc)
  qed
qed

lemma MerkleTreeHelper_carries:
  assumes "k < 20" and "odd (length (MerkleTreeHelper_buildTree H L ! k))"
  shows "last (MerkleTreeHelper_buildTree H L ! Suc k) = last (MerkleTreeHelper_buildTree H L ! k)"
  using helper_levels_step [OF assms(1), of H L] helper_nextLevel_last_odd [OF assms(2) [unfolded MerkleTreeHelper_buildTree_def], of H]
  by (simp add: MerkleTreeHelper_buildTree_def)

lemma helper_abc:
  "b \<noteq> 0 \<Longrightarrow> MerkleTreeHelper_buildTree H [a, b, c] ! 1 = [H a b, c]"
  by (simp add: MerkleTreeHelper_buildTree_def eval_nat_numeral helper_nextLevel_def)

text \<open>
  Claim C1, at a failing input. Over leaves \<open>[1, 2, 3]\<close> the server's
  \<open>MerkleTree.buildTree\<close> gives level 1 equal to \<open>[H 1 2, H 3 3]\<close>: the unpaired
  node 3 is hashed with itself, and the level is not \<open>[H 1 2, 3]\<close>. The benchmark's
  \<open>MerkleTreeHelper.buildTree\<close> gives \<open>[H 1 2, 3]\<close> on the same leaves.
\<close>

theorem buildTree_hashes_unpaired_node_with_itself:
  "buildTree sampleHash [1, 2, 3] ! 1 = [sampleHash 1 2, sampleHash 3 3]
   \<and> buildTree sampleHash [1, 2, 3] ! 1 \<noteq> [sampleHash 1 2, 3]
   \<and> MerkleTreeHelper_buildTree sampleHash [1, 2, 3] ! 1 = [sampleHash 1 2, 3]"
  by (simp add: buildTree_def buildTree_loop.simps sampleHash_def MerkleTreeHelper_buildTree_def
        eval_nat_numeral helper_nextLevel_def)

subsection \<open>The inclusion path folds back to the root\<close>

text \<open>
  Claim C6, as the code has it. For a non-empty list of leaves \<open>L\<close> and an index
  \<open>i\<close> in range, the tree is built, \<open>getProof\<close> and \<open>getRoot\<close> return, and the
  manual fold of the path from leaf \<open>L ! i\<close> gives the root provided none of the
  elements recorded for the real levels of the tree is 0 (the fold takes every 0 for
  padding and skips it).
\<close>

theorem getProof_fold_reaches_root:
  assumes "L \<noteq> []" and "i < length L"
  shows "\<exists>t p r. new_MerkleTree H L = Inr t \<and> getProof t i = Inr p \<and> getRoot t = Inr r
           \<and> (0 \<notin> set (take (length (tree t) - 1) (pathElements p))
                \<longrightarrow> rootsMatch H p (L ! i) r)"
proof -
  let ?t = "\<lparr>leaves = L, tree = buildTree H L\<rparr>"
  from getProof_loop_shape [OF assms(2), of H] obtain els ids where
    run: "getProof_loop (butlast (buildTree H L)) [] [] i = Inr (els, ids)"
    and le: "length els = length (buildTree H L) - 1"
    and li: "length ids = length (buildTree H L) - 1"
    by blast
  let ?p = "\<lparr>pathElements = pad_to_depth 0 els, pathIndices = pad_to_depth 0 ids\<rparr>"
  have t: "new_MerkleTree H L = Inr ?t"
    using assms(1) by (simp add: new_MerkleTree_def)
  have p: "getProof ?t i = Inr ?p"
    by (simp add: getProof_def run)
  have r: "getRoot ?t = Inr (hd (last (buildTree H L)))"
    using assms(1) by (rule getRoot_new_MerkleTree)
  have tk: "take (length (tree ?t) - 1) (pathElements ?p) = els"
    by (simp add: pad_to_depth_def le)
  have "rootsMatch H ?p (L ! i) (hd (last (buildTree H L)))" if "0 \<notin> set els"
    using getProof_loop_fold [OF assms(2) run that] le li
    by (simp add: rootsMatch_def manualFold_padded)
  with t p r tk show ?thesis by metis
qed

theorem getProof_fold_reaches_root_witness:
  "[1, 2, 3 :: int] \<noteq> [] \<and> 2 < length [1, 2, 3 :: int]
   \<and> new_MerkleTree sampleHash [1, 2, 3]
       = Inr \<lparr>leaves = [1, 2, 3], tree = [[1, 2, 3], [9, 16], [67]]\<rparr>
   \<and> getProof \<lparr>leaves = [1, 2, 3], tree = [[1, 2, 3], [9, 16], [67]]\<rparr> 2
       = Inr \<lparr>pathElements = 3 # 9 # replicate 18 0, pathIndices = 0 # 1 # replicate 18 0\<rparr>
   \<and> getRoot \<lparr>leaves = [1, 2, 3], tree = [[1, 2, 3], [9, 16], [67]]\<rparr> = Inr 67
   \<and> 0 \<notin> set (take 2 (3 # 9 # replicate 18 (0 :: int)))
   \<and> rootsMatch sampleHash
        \<lparr>pathElements = 3 # 9 # replicate 18 0, pathIndices = 0 # 1 # replicate 18 0\<rparr> 3 67"
proof -
  let ?T = "\<lparr>leaves = [1, 2, 3], tree = [[1, 2, 3], [9, 16], [67]]\<rparr>"
  let ?P = "\<lparr>pathElements = 3 # 9 # replicate 18 (0 :: int),
             pathIndices = 0 # 1 # replicate 18 (0 :: nat)\<rparr>"
  have t: "new_MerkleTree sampleHash [1, 2, 3] = Inr ?T"
    by (simp add: new_MerkleTree_def buildTree_def buildTree_loop.simps sampleHash_def)
  have p: "getProof ?T 2 = Inr ?P"
    by (simp add: getProof_def at_index_def nullish_def pad_to_depth_def TREE_DEPTH_def)
  have r: "getRoot ?T = Inr 67"
    by (simp add: getRoot_def at_index_def)
  have pre: "[1, 2, 3 :: int] \<noteq> []" "2 < length [1, 2, 3 :: int]"
    by simp_all
  from getProof_fold_reaches_root [OF pre, of sampleHash] obtain t' p' r' where
    "new_MerkleTree sampleHash [1, 2, 3] = Inr t'" "getProof t' 2 = Inr p'" "getRoot t' = Inr r'"
    and imp: "0 \<notin> set (take (length (tree t') - 1) (pathElements p'))
              \<longrightarrow> rootsMatch sampleHash p' ([1, 2, 3] ! 2) r'"
    by blast
  with t p r have "t' = ?T" "p' = ?P" "r' = 67" by simp_all
  with imp have "rootsMatch sampleHash ?P 3 67" by simp
  with t p r show ?thesis by simp
qed

text \<open>
  The claim as written fails when a real sibling is 0: over leaves \<open>[5, 0]\<close> the path
  of leaf 0 records the sibling 0, the fold skips it and ends at 5, not at the root.
\<close>

theorem zero_sibling_roundtrip_counterexample:
  "new_MerkleTree sampleHash [5, 0] = Inr \<lparr>leaves = [5, 0], tree = [[5, 0], [11]]\<rparr>
   \<and> getProof \<lparr>leaves = [5, 0], tree = [[5, 0], [11]]\<rparr> 0
       = Inr \<lparr>pathElements = 0 # replicate 19 0, pathIndices = 0 # replicate 19 0\<rparr>
   \<and> getRoot \<lparr>leaves = [5, 0], tree = [[5, 0], [11]]\<rparr> = Inr 11
   \<and> \<not> rootsMatch sampleHash
          \<lparr>pathElements = 0 # replicate 19 0, pathIndices = 0 # replicate 19 0\<rparr> 5 11"
  by (simp add: new_MerkleTree_def buildTree_def buildTree_loop.simps sampleHash_def getProof_def
        getRoot_def at_index_def nullish_def pad_to_depth_def TREE_DEPTH_def rootsMatch_def
        manualFold_zeros)

subsection \<open>The shape of the inclusion path\<close>

text \<open>
  The server's \<open>getProof\<close>. For a tree over at most \<open>2 ^ TREE_DEPTH\<close> leaves and an
  index in range it returns exactly \<open>TREE_DEPTH\<close> elements and as many bits. At each
  real level \<open>k\<close> (below the root level) the element is \<open>sibling_or_self\<close> of the
  node on the way up, that is the sibling when the layer has one and the node itself
  when it has none, and the bit is the parity of the node's position; every entry
  above the real levels is the pair \<open>(0, 0)\<close>.
\<close>

lemma getProof_shape:
  assumes "L \<noteq> []" and "i < length L" and "length L \<le> 2 ^ TREE_DEPTH"
  shows "\<exists>t p. new_MerkleTree H L = Inr t \<and> getProof t i = Inr p
           \<and> length (pathElements p) = TREE_DEPTH \<and> length (pathIndices p) = TREE_DEPTH
           \<and> (\<forall>k < TREE_DEPTH.
                  if k < length (tree t) - 1
                  then pathElements p ! k = sibling_or_self (tree t ! k) (i div 2 ^ k)
                     \<and> pathIndices p ! k = (i div 2 ^ k) mod 2
                  else pathElements p ! k = 0 \<and> pathIndices p ! k = 0)"
proof -
  let ?t = "\<lparr>leaves = L, tree = buildTree H L\<rparr>"
  from getProof_loop_shape [OF assms(2), of H] obtain els ids where
    run: "getProof_loop (butlast (buildTree H L)) [] [] i = Inr (els, ids)"
    and le: "length els = length (buildTree H L) - 1"
    and li: "length ids = length (buildTree H L) - 1"
    and nth: "\<forall>k < length (buildTree H L) - 1.
            i div 2 ^ k < length (buildTree H L ! k)
          \<and> els ! k = sibling_or_self (buildTree H L ! k) (i div 2 ^ k)
          \<and> ids ! k = (i div 2 ^ k) mod 2"
    by blast
  let ?p = "\<lparr>pathElements = pad_to_depth 0 els, pathIndices = pad_to_depth 0 ids\<rparr>"
  have t: "new_MerkleTree H L = Inr ?t"
    using assms(1) by (simp add: new_MerkleTree_def)
  have p: "getProof ?t i = Inr ?p"
    by (simp add: getProof_def run)
  have h: "length (buildTree H L) - 1 \<le> TREE_DEPTH"
    using buildTree_height_upper [OF assms(3), of H] by simp
  have l1: "length (pathElements ?p) = TREE_DEPTH" "length (pathIndices ?p) = TREE_DEPTH"
    using h by (simp_all add: length_pad_to_depth le li)
  have each: "if k < length (tree ?t) - 1
                  then pathElements ?p ! k = sibling_or_self (tree ?t ! k) (i div 2 ^ k)
                     \<and> pathIndices ?p ! k = (i div 2 ^ k) mod 2
                  else pathElements ?p ! k = 0 \<and> pathIndices ?p ! k = 0"
    if "k < TREE_DEPTH" for k
    using that nth le li by (simp add: pad_to_depth_def nth_append)
  from t p l1 each show ?thesis by blast
qed

text \<open>
  Beyond \<open>2 ^ TREE_DEPTH\<close> leaves the padding loop never runs and the path is longer
  than \<open>TREE_DEPTH\<close>.
\<close>

lemma getProof_exceeds_depth:
  assumes "i < length L" and "2 ^ TREE_DEPTH < length L"
  shows "\<exists>p. getProof \<lparr>leaves = L, tree = buildTree H L\<rparr> i = Inr p
           \<and> TREE_DEPTH < length (pathElements p)"
proof -
  from getProof_loop_shape [OF assms(1), of H] obtain els ids where
    run: "getProof_loop (butlast (buildTree H L)) [] [] i = Inr (els, ids)"
    and le: "length els = length (buildTree H L) - 1"
    by blast
  have "TREE_DEPTH < length els"
    using buildTree_height_lower [OF assms(2), of H] le by simp
  then show ?thesis by (simp add: getProof_def run length_pad_to_depth)
qed

text \<open>
  The benchmark's \<open>getMerklePath\<close>. On the tree it has built and for an index in
  range it returns exactly 20 elements and 20 bits, whatever the number of leaves. At
  each level the element is the sibling when the level has one and 0 when it has
  none, the bit is the parity of the node's position, and a level with a single node
  (at and above the real height) gives the pair \<open>(0, 0)\<close>.
\<close>

lemma getMerklePath_loop_acc:
  "getMerklePath_loop levels els ids i =
     \<lparr>elements = els @ elements (getMerklePath_loop levels [] [] i),
      indices = ids @ indices (getMerklePath_loop levels [] [] i)\<rparr>"
proof (induction levels arbitrary: els ids i)
  case Nil
  show ?case by simp
next
  case (Cons lv levels)
  show ?case
    by (simp add: Cons.IH [of "els @ _" "ids @ _"] Cons.IH [of "[_]" "[_]"])
qed

lemma getMerklePath_loop_shape:
  "length (elements (getMerklePath_loop levels [] [] i)) = length levels
   \<and> length (indices (getMerklePath_loop levels [] [] i)) = length levels
   \<and> (\<forall>k < length levels.
         elements (getMerklePath_loop levels [] [] i) ! k = sibling_or_zero (levels ! k) (i div 2 ^ k)
       \<and> indices (getMerklePath_loop levels [] [] i) ! k = (i div 2 ^ k) mod 2)"
proof (induction levels arbitrary: i)
  case Nil
  show ?case by simp
next
  case (Cons lv levels)
  have pw: "i div 2 div 2 ^ k = i div 2 ^ Suc k" for k
    by (simp add: div_mult2_eq)
  have step: "getMerklePath_loop (lv # levels) [] [] i =
      \<lparr>elements = sibling_or_zero lv i # elements (getMerklePath_loop levels [] [] (i div 2)),
       indices = (i mod 2) # indices (getMerklePath_loop levels [] [] (i div 2))\<rparr>"
    by (subst getMerklePath_loop.simps, subst getMerklePath_loop_acc) auto
  show ?case
    unfolding step using Cons.IH [of "i div 2"]
    by (auto simp: nth_Cons' pw simp del: getMerklePath_loop.simps power_Suc)
qed


lemma length_MerkleTreeHelper_buildTree: "length (MerkleTreeHelper_buildTree H L) = 21"
  by (simp add: MerkleTreeHelper_buildTree_def length_helper_levels)

lemma length_helper_pairs: "length (helper_pairs H lvl) = (length lvl + 1) div 2"
  by (induction H lvl rule: helper_pairs.induct) simp_all

lemma helper_index_in_range:
  "i < length lvl \<Longrightarrow> k \<le> n \<Longrightarrow> i div 2 ^ k < length (helper_levels H n lvl ! k)"
proof (induction n arbitrary: lvl i k)
  case 0
  then show ?case by simp
next
  case (Suc n)
  show ?case
  proof (cases k)
    case 0
    with Suc.prems show ?thesis by simp
  next
    case (Suc j)
    from Suc.prems(1) have ne: "helper_pairs H lvl \<noteq> []"
      by (auto simp: helper_pairs_Nil_iff)
    have "i div 2 < length (helper_nextLevel H lvl)"
      using Suc.prems(1) ne by (simp add: helper_nextLevel_def length_helper_pairs)
    moreover from Suc.prems(2) Suc have "j \<le> n" by simp
    ultimately have "i div 2 div 2 ^ j < length (helper_levels H n (helper_nextLevel H lvl) ! j)"
      by (rule Suc.IH)
    then show ?thesis by (simp add: Suc div_mult2_eq)
  qed
qed

lemma MerkleTreeHelper_getMerklePath_shape:
  assumes "i < length L"
  shows "\<exists>p. MerkleTreeHelper_getMerklePath (MerkleTreeHelper_buildTree H L) L i = Inr p
           \<and> length (elements p) = 20 \<and> length (indices p) = 20
           \<and> (\<forall>k < 20.
                 elements p ! k = sibling_or_zero (MerkleTreeHelper_buildTree H L ! k) (i div 2 ^ k)
               \<and> indices p ! k = (i div 2 ^ k) mod 2
               \<and> (length (MerkleTreeHelper_buildTree H L ! k) = 1
                    \<longrightarrow> elements p ! k = 0 \<and> indices p ! k = 0))"
proof -
  let ?T = "MerkleTreeHelper_buildTree H L"
  let ?p = "getMerklePath_loop (take 20 ?T) [] [] i"
  have len: "length ?T = 21" by (rule length_MerkleTreeHelper_buildTree)
  then have ne: "?T \<noteq> []" by auto
  have run: "MerkleTreeHelper_getMerklePath ?T L i = Inr ?p"
    using assms len ne by (simp add: MerkleTreeHelper_getMerklePath_def)
  have l20: "length (take 20 ?T) = 20" using len by simp
  note sh = getMerklePath_loop_shape [of "take 20 ?T" i, unfolded l20]
  have each: "elements ?p ! k = sibling_or_zero (?T ! k) (i div 2 ^ k)
               \<and> indices ?p ! k = (i div 2 ^ k) mod 2
               \<and> (length (?T ! k) = 1 \<longrightarrow> elements ?p ! k = 0 \<and> indices ?p ! k = 0)"
    if k: "k < 20" for k
  proof -
    from sh k have a: "elements ?p ! k = sibling_or_zero (?T ! k) (i div 2 ^ k)"
      and b: "indices ?p ! k = (i div 2 ^ k) mod 2" by simp_all
    have r: "i div 2 ^ k < length (?T ! k)"
      unfolding MerkleTreeHelper_buildTree_def
      using k by (intro helper_index_in_range [OF assms]) simp
    have "elements ?p ! k = 0 \<and> indices ?p ! k = 0" if "length (?T ! k) = 1"
    proof -
      from r that have z: "i div 2 ^ k = 0" by simp
      show ?thesis unfolding a b z using that
        by (simp add: sibling_or_zero_def at_index_def)
    qed
    with a b show ?thesis by blast
  qed
  from run sh each show ?thesis by blast
qed

lemma helper_path_example:
  "MerkleTreeHelper_getMerklePath (MerkleTreeHelper_buildTree sampleHash [1, 2, 3]) [1, 2, 3] 2
     = Inr \<lparr>elements = 0 # 9 # replicate 18 0, indices = 0 # 1 # replicate 18 0\<rparr>"
  by code_simp

text \<open>
  Claim C7, at a failing input. In the server's tree over \<open>[1, 2, 3]\<close> leaf 2 has no
  sibling (\<open>layer[3]\<close> is undefined), and the element \<open>getProof\<close> records at level 0
  is the leaf itself, 3, not 0; over \<open>2 ^ 20 + 1\<close> leaves \<open>getProof\<close> returns more
  than 20 pairs. The benchmark's \<open>getMerklePath\<close> records 0 for the same leaf.
\<close>

theorem getProof_records_lone_node_itself:
  "new_MerkleTree sampleHash [1, 2, 3]
       = Inr \<lparr>leaves = [1, 2, 3], tree = [[1, 2, 3], [9, 16], [67]]\<rparr>
   \<and> at_index [1, 2, 3 :: int] (2 + 1) = None
   \<and> getProof \<lparr>leaves = [1, 2, 3], tree = [[1, 2, 3], [9, 16], [67]]\<rparr> 2
       = Inr \<lparr>pathElements = 3 # 9 # replicate 18 0, pathIndices = 0 # 1 # replicate 18 0\<rparr>
   \<and> (3 # 9 # replicate 18 (0 :: int)) ! 0 \<noteq> 0
   \<and> new_MerkleTree sampleHash (replicate 1048577 1)
       = Inr \<lparr>leaves = replicate 1048577 1, tree = buildTree sampleHash (replicate 1048577 1)\<rparr>
   \<and> \<not> isl (getProof \<lparr>leaves = replicate 1048577 1,
                         tree = buildTree sampleHash (replicate 1048577 1)\<rparr> 0)
   \<and> TREE_DEPTH < length (pathElements (projr (getProof
         \<lparr>leaves = replicate 1048577 1, tree = buildTree sampleHash (replicate 1048577 1)\<rparr> 0)))
   \<and> MerkleTreeHelper_getMerklePath (MerkleTreeHelper_buildTree sampleHash [1, 2, 3]) [1, 2, 3] 2
       = Inr \<lparr>elements = 0 # 9 # replicate 18 0, indices = 0 # 1 # replicate 18 0\<rparr>"
proof -
  have small: "new_MerkleTree sampleHash [1, 2, 3]
       = Inr \<lparr>leaves = [1, 2, 3], tree = [[1, 2, 3], [9, 16], [67]]\<rparr>
   \<and> at_index [1, 2, 3 :: int] (2 + 1) = None
   \<and> getProof \<lparr>leaves = [1, 2, 3], tree = [[1, 2, 3], [9, 16], [67]]\<rparr> 2
       = Inr \<lparr>pathElements = 3 # 9 # replicate 18 0, pathIndices = 0 # 1 # replicate 18 0\<rparr>
   \<and> (3 # 9 # replicate 18 (0 :: int)) ! 0 \<noteq> 0"
    by (simp add: new_MerkleTree_def buildTree_def buildTree_loop.simps sampleHash_def
          getProof_def at_index_def nullish_def pad_to_depth_def TREE_DEPTH_def)
  have big: "new_MerkleTree sampleHash (replicate 1048577 1)
       = Inr \<lparr>leaves = replicate 1048577 1, tree = buildTree sampleHash (replicate 1048577 1)\<rparr>"
    by (simp add: new_MerkleTree_def)
  have "(0 :: nat) < length (replicate 1048577 (1 :: int))"
    "2 ^ TREE_DEPTH < length (replicate 1048577 (1 :: int))"
    by (simp_all add: TREE_DEPTH_def)
  from getProof_exceeds_depth [OF this, of sampleHash] obtain p where
    "getProof \<lparr>leaves = replicate 1048577 1,
               tree = buildTree sampleHash (replicate 1048577 1)\<rparr> 0 = Inr p"
    "TREE_DEPTH < length (pathElements p)" by blast
  then have "\<not> isl (getProof \<lparr>leaves = replicate 1048577 1,
                         tree = buildTree sampleHash (replicate 1048577 1)\<rparr> 0)
   \<and> TREE_DEPTH < length (pathElements (projr (getProof
         \<lparr>leaves = replicate 1048577 1, tree = buildTree sampleHash (replicate 1048577 1)\<rparr> 0)))"
    by simp
  with small big helper_path_example show ?thesis by blast
qed

section \<open>Properties of the voting ledger\<close>

subsection \<open>What a successful call has checked and written\<close>

lemma map_sum_fst_Inr:
  "map_sum id fst x = Inr s' \<longleftrightarrow> (\<exists>evs r. x = Inr (s', evs, r))"
  by (cases x) auto

lemma createElection_Inr:
  assumes "createElection env t st en r s = Inr (s', evs, rv)"
  shows "msg_sender env = electionAuthority s" "block_timestamp env \<le> st" "st < en"
    "electionCount s \<noteq> - 1" "rv = electionCount s + 1"
    "s' = s\<lparr>electionCount := electionCount s + 1,
            elections := (elections s)(electionCount s + 1 :=
              \<lparr>id_field = electionCount s + 1, title = t, startTime = st, endTime = en,
               isActive = False, isClosed = False, totalVotes = 0, candidatesMerkleRoot = r\<rparr>)\<rparr>"
    "evs = [ElectionCreated (electionCount s + 1) t st en]"
  using assms by (auto simp: createElection_def onlyAuthority_def Let_def split: if_splits)

lemma openElection_Inr:
  assumes "openElection env e s = Inr (s', evs, rv)"
  shows "msg_sender env = electionAuthority s" "id_field (elections s e) = e"
    "\<not> isActive (elections s e)" "\<not> isClosed (elections s e)"
    "s' = s\<lparr>elections := (elections s)(e := (elections s e)\<lparr>isActive := True\<rparr>)\<rparr>"
    "evs = [ElectionOpened e]"
  using assms
  by (auto simp: openElection_def onlyAuthority_def electionExists_def Let_def split: if_splits)

lemma closeElection_Inr:
  assumes "closeElection env e s = Inr (s', evs, rv)"
  shows "msg_sender env = electionAuthority s" "id_field (elections s e) = e"
    "isActive (elections s e)" "\<not> isClosed (elections s e)"
    "s' = s\<lparr>elections := (elections s)(e := (elections s e)\<lparr>isActive := False, isClosed := True\<rparr>)\<rparr>"
    "evs = [ElectionClosed e (totalVotes (elections s e))]"
  using assms
  by (auto simp: closeElection_def onlyAuthority_def electionExists_def Let_def split: if_splits)

lemma registerAnonymousToken_Inr:
  assumes "registerAnonymousToken env e t s = Inr (s', evs, rv)"
  shows "msg_sender env = electionAuthority s" "id_field (elections s e) = e"
    "\<not> usedTokens s e t" "s' = s" "evs = [TokenRegistered e t]"
proof -
  from assms have a: "msg_sender env = electionAuthority s" "id_field (elections s e) = e"
    "\<not> usedTokens s e t"
    and s': "s' = s\<lparr>usedTokens := (usedTokens s)(e := (usedTokens s e)(t := False))\<rparr>"
    and ev: "evs = [TokenRegistered e t]"
    by (auto simp: registerAnonymousToken_def onlyAuthority_def electionExists_def split: if_splits)
  from a(3) have "(usedTokens s e)(t := False) = usedTokens s e"
    by (simp add: fun_upd_idem)
  then have "(usedTokens s)(e := (usedTokens s e)(t := False)) = usedTokens s"
    by simp
  with s' have "s' = s" by simp
  with a ev show "msg_sender env = electionAuthority s" "id_field (elections s e) = e"
    "\<not> usedTokens s e t" "s' = s" "evs = [TokenRegistered e t]" by simp_all
qed

lemma castVote_Inr:
  assumes "castVote K env e t b s = Inr (s', evs, h)"
  shows "electionActive env s e = None" "\<not> usedTokens s e t"
    "h = K (voteHash_preimage e t b (block_timestamp env) (block_number env))"
    "voteHash (votes s e h) = 0" "totalVotes (elections s e) \<noteq> - 1"
    "s' = s\<lparr>usedTokens := (usedTokens s)(e := (usedTokens s e)(t := True)),
            votes := (votes s)(e := (votes s e)(h :=
               \<lparr>voteHash = h, encryptedBallot = b, anonymousTokenHash = t,
                timestamp = block_timestamp env, blockNumber = block_number env\<rparr>)),
            electionVoteHashes := (electionVoteHashes s)(e := electionVoteHashes s e @ [h]),
            elections := (elections s)(e := (elections s e)\<lparr>totalVotes := totalVotes (elections s e) + 1\<rparr>)\<rparr>"
    "evs = [VoteCast e h (block_timestamp env)]"
  using assms
  by (auto simp: castVote_def Let_def split: if_splits option.splits)

lemma electionActive_None:
  "electionActive env s e = None \<longleftrightarrow>
     isActive (elections s e) \<and> startTime (elections s e) \<le> block_timestamp env
     \<and> block_timestamp env \<le> endTime (elections s e) \<and> \<not> isClosed (elections s e)"
  by (auto simp: electionActive_def Let_def)

lemma castVote_succeeds:
  assumes "electionActive env s e = None" "\<not> usedTokens s e t"
    "h = K (voteHash_preimage e t b (block_timestamp env) (block_number env))"
    "voteHash (votes s e h) = 0" "totalVotes (elections s e) \<noteq> - 1"
  shows "castVote K env e t b s =
     Inr (s\<lparr>usedTokens := (usedTokens s)(e := (usedTokens s e)(t := True)),
            votes := (votes s)(e := (votes s e)(h :=
               \<lparr>voteHash = h, encryptedBallot = b, anonymousTokenHash = t,
                timestamp = block_timestamp env, blockNumber = block_number env\<rparr>)),
            electionVoteHashes := (electionVoteHashes s)(e := electionVoteHashes s e @ [h]),
            elections := (elections s)(e := (elections s e)\<lparr>totalVotes := totalVotes (elections s e) + 1\<rparr>)\<rparr>,
          [VoteCast e h (block_timestamp env)], h)"
  using assms by (simp add: castVote_def Let_def)

lemma castVote_used_token:
  "usedTokens s e t \<Longrightarrow>
   castVote K env e t b s =
     Inl (case electionActive env s e of None \<Rightarrow> TokenAlreadyUsed | Some err \<Rightarrow> err)"
  by (simp add: castVote_def split: option.splits)

lemma unat_succ_word: "(x :: 'a::len word) \<noteq> - 1 \<Longrightarrow> unat (x + 1) = Suc (unat x)"
proof -
  assume "x \<noteq> - 1"
  then have "1 + x \<noteq> 0"
    by (metis add.commute eq_neg_iff_add_eq_0)
  then have "unat (1 + x) = Suc (unat x)" by (rule unatSuc)
  then show ?thesis by (simp add: add.commute)
qed

lemma less_succ_word: "(x :: 'a::len word) \<noteq> - 1 \<Longrightarrow> x < x + 1"
  by (simp add: word_less_nat_alt unat_succ_word)

lemma above_succ_word:
  "(x :: 'a::len word) \<noteq> - 1 \<Longrightarrow> x + 1 < i \<Longrightarrow> x < i"
  by (simp add: word_less_nat_alt unat_succ_word)


subsection \<open>Invariants of the reachable storages\<close>

lemma transact_cases [consumes 1, case_names create open' close register cast]:
  assumes "transact K env c s = Inr s'"
  obtains
    (create) t st en r evs rv where "c = CreateElection t st en r"
      "createElection env t st en r s = Inr (s', evs, rv)"
  | (open') e evs rv where "c = OpenElection e" "openElection env e s = Inr (s', evs, rv)"
  | (close) e evs rv where "c = CloseElection e" "closeElection env e s = Inr (s', evs, rv)"
  | (register) e t evs rv where "c = RegisterAnonymousToken e t"
      "registerAnonymousToken env e t s = Inr (s', evs, rv)"
  | (cast) e t b evs h where "c = CastVote e t b" "castVote K env e t b s = Inr (s', evs, h)"
  using assms by (cases c) (auto simp: map_sum_fst_Inr)

lemma default_Election_fields [simp]:
  "id_field default_Election = 0" "isActive default_Election = False"
  "isClosed default_Election = False" "totalVotes default_Election = 0"
  by (simp_all add: default_Election_def)

lemma fresh_ids_step:
  assumes inv: "\<And>i. electionCount s < i \<Longrightarrow>
                  elections s i = default_Election \<and> electionVoteHashes s i = []"
    and step: "transact K env c s = Inr s'"
    and above: "electionCount s' < i"
  shows "elections s' i = default_Election \<and> electionVoteHashes s' i = []"
  using step
proof (cases rule: transact_cases)
  case (create t st en r evs rv)
  note f = createElection_Inr [OF create(2)]
  from above f(6) have a: "electionCount s + 1 < i" by simp
  from above_succ_word [OF f(4) a] have "electionCount s < i" .
  moreover from a have "i \<noteq> electionCount s + 1" by auto
  ultimately show ?thesis using inv [of i] by (simp add: f(6))
next
  case (open' e evs rv)
  note f = openElection_Inr [OF open'(2)]
  from above have a: "electionCount s < i" by (simp add: f(5))
  have "e \<noteq> i"
  proof
    assume "e = i"
    with inv [OF a] f(2) have "i = 0" by simp
    with a show False by simp
  qed
  with inv [OF a] show ?thesis by (simp add: f(5))
next
  case (close e evs rv)
  note f = closeElection_Inr [OF close(2)]
  from above have a: "electionCount s < i" by (simp add: f(5))
  have "e \<noteq> i"
  proof
    assume "e = i"
    with inv [OF a] f(2) have "i = 0" by simp
    with a show False by simp
  qed
  with inv [OF a] show ?thesis by (simp add: f(5))
next
  case (register e t evs rv)
  note f = registerAnonymousToken_Inr [OF register(2)]
  from inv [of i] above show ?thesis by (simp add: f(4))
next
  case (cast e t b evs h)
  note f = castVote_Inr [OF cast(2)]
  from above have a: "electionCount s < i" by (simp add: f(6))
  have "e \<noteq> i"
  proof
    assume "e = i"
    with inv [OF a] f(1) show False by (simp add: electionActive_None)
  qed
  with inv [OF a] show ?thesis by (simp add: f(6))
qed

lemma reachable_fresh_ids:
  "reachable K s \<Longrightarrow> electionCount s < i \<Longrightarrow>
   elections s i = default_Election \<and> electionVoteHashes s i = []"
proof (induction arbitrary: i rule: reachable.induct)
  case (deployed env)
  show ?case by (simp add: constructor_def)
next
  case (transacted s env c s')
  show ?case
    by (rule fresh_ids_step [OF transacted.IH transacted.hyps(2) transacted.prems])
qed

lemma next_id_is_fresh:
  assumes "reachable K s" "electionCount s \<noteq> - 1"
  shows "elections s (electionCount s + 1) = default_Election"
    "electionVoteHashes s (electionCount s + 1) = []"
  using reachable_fresh_ids [OF assms(1) less_succ_word [OF assms(2)]] by simp_all

text \<open>How one transaction changes the hashes and the counter of election i.\<close>

lemma step_counts:
  assumes "reachable K s" and step: "transact K env c s = Inr s'"
  shows "if \<exists>t b. c = CastVote i t b
         then (\<exists>h. electionVoteHashes s' i = electionVoteHashes s i @ [h])
              \<and> unat (totalVotes (elections s' i)) = unat (totalVotes (elections s i)) + 1
         else electionVoteHashes s' i = electionVoteHashes s i
              \<and> totalVotes (elections s' i) = totalVotes (elections s i)"
  using step
proof (cases rule: transact_cases)
  case (create t st en r evs rv)
  note f = createElection_Inr [OF create(2)]
  from next_id_is_fresh [OF assms(1) f(4)] show ?thesis
    by (simp add: create(1) f(6))
next
  case (open' e evs rv)
  show ?thesis by (simp add: open'(1) openElection_Inr(5) [OF open'(2)])
next
  case (close e evs rv)
  show ?thesis by (simp add: close(1) closeElection_Inr(5) [OF close(2)])
next
  case (register e t evs rv)
  show ?thesis by (simp add: register(1) registerAnonymousToken_Inr(4) [OF register(2)])
next
  case (cast e t b evs h)
  note f = castVote_Inr [OF cast(2)]
  show ?thesis
    using unat_succ_word [OF f(5)] by (auto simp: cast(1) f(6))
qed

lemma reachable_counts:
  "reachable K s \<Longrightarrow> unat (totalVotes (elections s i)) = length (electionVoteHashes s i)"
proof (induction arbitrary: i rule: reachable.induct)
  case (deployed env)
  show ?case by (simp add: constructor_def)
next
  case (transacted s env c s')
  from step_counts [OF transacted.hyps(1,2), of i] transacted.IH [of i]
  show ?case by (auto split: if_splits)
qed

lemma reachable_flags_exclusive:
  "reachable K s \<Longrightarrow> \<not> (isActive (elections s i) \<and> isClosed (elections s i))"
proof (induction arbitrary: i rule: reachable.induct)
  case (deployed env)
  show ?case by (simp add: constructor_def)
next
  case (transacted s env c s')
  from transacted.hyps(2) show ?case
  proof (cases rule: transact_cases)
    case (create t st en r evs rv)
    from transacted.IH [of i] show ?thesis by (auto simp: createElection_Inr(6) [OF create(2)])
  next
    case (open' e evs rv)
    note f = openElection_Inr [OF open'(2)]
    from transacted.IH [of i] f(4) show ?thesis by (auto simp: f(5))
  next
    case (close e evs rv)
    from transacted.IH [of i] show ?thesis by (auto simp: closeElection_Inr(5) [OF close(2)])
  next
    case (register e t evs rv)
    from transacted.IH [of i] show ?thesis by (simp add: registerAnonymousToken_Inr(4) [OF register(2)])
  next
    case (cast e t b evs h)
    from transacted.IH [of i] show ?thesis by (auto simp: castVote_Inr(6) [OF cast(2)])
  qed
qed

lemma reachable_ids:
  "reachable K s \<Longrightarrow> id_field (elections s i) = i \<or> elections s i = default_Election"
proof (induction arbitrary: i rule: reachable.induct)
  case (deployed env)
  show ?case by (simp add: constructor_def)
next
  case (transacted s env c s')
  from transacted.hyps(2) show ?case
  proof (cases rule: transact_cases)
    case (create t st en r evs rv)
    from transacted.IH [of i] show ?thesis by (auto simp: createElection_Inr(6) [OF create(2)])
  next
    case (open' e evs rv)
    note f = openElection_Inr [OF open'(2)]
    from transacted.IH [of i] f(2) show ?thesis by (auto simp: f(5))
  next
    case (close e evs rv)
    note f = closeElection_Inr [OF close(2)]
    from transacted.IH [of i] f(2) show ?thesis by (auto simp: f(5))
  next
    case (register e t evs rv)
    from transacted.IH [of i] show ?thesis by (simp add: registerAnonymousToken_Inr(4) [OF register(2)])
  next
    case (cast e t b evs h)
    note f = castVote_Inr [OF cast(2)]
    have "id_field (elections s e) = e"
      using transacted.IH [of e] f(1) by (auto simp: electionActive_None)
    then show ?thesis using transacted.IH [of i] by (auto simp: f(6))
  qed
qed

lemma step_phase:
  assumes "reachable K s" and step: "transact K env c s = Inr s'"
  shows "phase_of (elections s' i) = phase_of (elections s i)
       \<or> (phase_of (elections s i) = Created \<and> phase_of (elections s' i) = Opened \<and> c = OpenElection i)
       \<or> (phase_of (elections s i) = Opened \<and> phase_of (elections s' i) = Closed \<and> c = CloseElection i)"
  using step
proof (cases rule: transact_cases)
  case (create t st en r evs rv)
  note f = createElection_Inr [OF create(2)]
  from next_id_is_fresh(1) [OF assms(1) f(4)] show ?thesis
    by (simp add: f(6) phase_of_def)
next
  case (open' e evs rv)
  note f = openElection_Inr [OF open'(2)]
  from f(3,4) show ?thesis by (simp add: f(5) open'(1) phase_of_def)
next
  case (close e evs rv)
  note f = closeElection_Inr [OF close(2)]
  from f(3,4) show ?thesis by (simp add: f(5) close(1) phase_of_def)
next
  case (register e t evs rv)
  show ?thesis by (simp add: register(1) registerAnonymousToken_Inr(4) [OF register(2)])
next
  case (cast e t b evs h)
  show ?thesis by (simp add: castVote_Inr(6) [OF cast(2)] phase_of_def)
qed

lemma openElection_on_closed:
  assumes "reachable K s" and "phase_of (elections s i) = Closed"
  shows "openElection env i s =
           Inl (if msg_sender env = electionAuthority s then AlreadyClosed else Unauthorized)"
proof -
  from assms(2) have c: "isClosed (elections s i)"
    by (simp add: phase_of_def split: if_splits)
  with reachable_flags_exclusive [OF assms(1), of i] have a: "\<not> isActive (elections s i)" by simp
  from c reachable_ids [OF assms(1), of i] have "id_field (elections s i) = i" by auto
  with a c show ?thesis
    by (simp add: openElection_def onlyAuthority_def electionExists_def)
qed

subsection \<open>A sample run\<close>

lemma length_be32: "length (be32 w) = 32"
  by (simp add: be32_def)

lemma sample_create:
  "createElection sample_authority_env ''Vote'' 1000 2000 0 (constructor sample_authority_env)
     = Inr (sample_ledger False False, [ElectionCreated 1 ''Vote'' 1000 2000], 1)"
  by (simp add: createElection_def onlyAuthority_def constructor_def sample_authority_env_def
        sample_ledger_def Let_def)

lemma sample_open:
  "openElection sample_authority_env 1 (sample_ledger False False)
     = Inr (sample_ledger True False, [ElectionOpened 1], ())"
  by (simp add: openElection_def onlyAuthority_def electionExists_def sample_authority_env_def
        sample_ledger_def Let_def)

lemma sample_close:
  "closeElection sample_authority_env 1 (sample_ledger True False)
     = Inr (sample_ledger False True, [ElectionClosed 1 0], ())"
  by (simp add: closeElection_def onlyAuthority_def electionExists_def sample_authority_env_def
        sample_ledger_def Let_def)

lemma sample_reachable:
  "reachable K (sample_ledger False False)" "reachable K (sample_ledger True False)"
  "reachable K (sample_ledger False True)"
proof -
  have c: "transact K sample_authority_env (CreateElection ''Vote'' 1000 2000 0)
             (constructor sample_authority_env) = Inr (sample_ledger False False)"
    by (simp add: sample_create)
  show 1: "reachable K (sample_ledger False False)"
    by (rule reachable.transacted [OF reachable.deployed c])
  have "transact K sample_authority_env (OpenElection 1) (sample_ledger False False)
          = Inr (sample_ledger True False)"
    by (simp add: sample_open)
  from reachable.transacted [OF 1 this] show 2: "reachable K (sample_ledger True False)" .
  have "transact K sample_authority_env (CloseElection 1) (sample_ledger True False)
          = Inr (sample_ledger False True)"
    by (simp add: sample_close)
  from reachable.transacted [OF 2 this] show "reachable K (sample_ledger False True)" .
qed

lemma sample_digest_value:
  "sampleDigest (voteHash_preimage e t [1, 2, 3] ts bn) = 132"
  by (simp add: sampleDigest_def voteHash_preimage_def length_be32)

lemma sample_cast:
  "castVote sampleDigest sample_voter_env 1 77 [1, 2, 3] (sample_ledger True False)
     = Inr (sample_voted, [VoteCast 1 132 1500], 132)"
  by (simp add: castVote_def electionActive_def sample_voter_env_def sample_ledger_def
        sample_voted_def sample_digest_value default_EncryptedVote_def Let_def)

subsection \<open>Tokens\<close>

text \<open>
  Claim C2, at a failing input. The contract is deployed, election 1 is created and
  opened, and no token is ever registered. At time 1500, inside the window, \<open>castVote\<close>
  with token 77 does not revert: it records the vote, the list of vote hashes of the
  election is \<open>[132]\<close> and \<open>totalVotes\<close> is 1.
\<close>

theorem castVote_accepts_unregistered_token:
  "transact sampleDigest sample_authority_env (CreateElection ''Vote'' 1000 2000 0)
       (constructor sample_authority_env) = Inr (sample_ledger False False)
   \<and> transact sampleDigest sample_authority_env (OpenElection 1) (sample_ledger False False)
       = Inr (sample_ledger True False)
   \<and> castVote sampleDigest sample_voter_env 1 77 [1, 2, 3] (sample_ledger True False)
       = Inr (sample_voted, [VoteCast 1 132 1500], 132)
   \<and> getElectionVoteHashes sample_voted 1 = [132]
   \<and> totalVotes (elections sample_voted 1) = 1"
  by (simp add: sample_create sample_open sample_cast getElectionVoteHashes_def)
     (simp add: sample_voted_def)

text \<open>
  Claim C9. A call of \<open>registerAnonymousToken\<close> that does not revert leaves the
  storage exactly as it was: the only write puts \<open>false\<close> where the \<open>require\<close> above
  it has just read \<open>false\<close>. It emits one \<open>TokenRegistered\<close> event, and the token's
  slot still holds \<open>false\<close>, the value of a slot never written; since the storage is
  the same, every view and every later call gives the same result as before.
\<close>

theorem registerAnonymousToken_leaves_storage_unchanged:
  assumes "registerAnonymousToken env electionId tokenHash s = Inr (s', evs, r)"
  shows "s' = s \<and> evs = [TokenRegistered electionId tokenHash]
         \<and> usedTokens s' electionId tokenHash = False"
  using registerAnonymousToken_Inr [OF assms] by simp

theorem registerAnonymousToken_leaves_storage_unchanged_witness:
  "registerAnonymousToken sample_authority_env 1 77 (sample_ledger True False)
     = Inr (sample_ledger True False, [TokenRegistered 1 77], ())"
proof -
  have "\<exists>s' evs. registerAnonymousToken sample_authority_env 1 77 (sample_ledger True False)
          = Inr (s', evs, ())"
    by (simp add: registerAnonymousToken_def onlyAuthority_def electionExists_def
          sample_authority_env_def sample_ledger_def)
  then obtain s' evs where
    r: "registerAnonymousToken sample_authority_env 1 77 (sample_ledger True False)
          = Inr (s', evs, ())" by blast
  from registerAnonymousToken_leaves_storage_unchanged [OF r] r show ?thesis by simp
qed

subsection \<open>Creating an election\<close>

text \<open>
  Claim C8, at a failing input. The authority calls \<open>createElection\<close> in a block whose
  timestamp is 1000 with \<open>startTime = 1000\<close>, which is not strictly in the future, and
  \<open>endTime = 2000\<close>. The call does not revert: it creates election 1.
\<close>

theorem createElection_accepts_start_at_block_time:
  "createElection \<lparr>msg_sender = 1, block_timestamp = 1000, block_number = 5\<rparr>
       ''Vote'' 1000 2000 0
       (constructor \<lparr>msg_sender = 1, block_timestamp = 1000, block_number = 5\<rparr>)
     = Inr (sample_ledger False False, [ElectionCreated 1 ''Vote'' 1000 2000], 1)"
  by (simp add: createElection_def onlyAuthority_def constructor_def sample_ledger_def Let_def)

text \<open>When \<open>createElection\<close> goes through, in general.\<close>

lemma createElection_succeeds_iff:
  "(\<exists>s' evs rv. createElection env t st en r s = Inr (s', evs, rv)) \<longleftrightarrow>
     msg_sender env = electionAuthority s \<and> block_timestamp env \<le> st \<and> st < en
     \<and> electionCount s \<noteq> - 1"
  by (auto simp: createElection_def onlyAuthority_def Let_def)

lemma createElection_result:
  assumes "createElection env t st en r s = Inr (s', evs, rv)"
  shows "rv = electionCount s + 1 \<and> electionCount s' = rv
         \<and> id_field (elections s' rv) = rv
         \<and> \<not> isActive (elections s' rv) \<and> \<not> isClosed (elections s' rv)
         \<and> phase_of (elections s' rv) = Created"
  using createElection_Inr [OF assms] by (simp add: phase_of_def)

lemma later_used:
  "later K s s' \<Longrightarrow> usedTokens s e t \<Longrightarrow> usedTokens s' e t"
proof (induction rule: later.induct)
  case now
  then show ?case .
next
  case (after s' env c s'')
  from after.IH [OF after.prems] have u: "usedTokens s' e t" .
  from after.hyps(2) show ?case
  proof (cases rule: transact_cases)
    case (create t' st en r evs rv)
    from u show ?thesis by (simp add: createElection_Inr(6) [OF create(2)])
  next
    case (open' e' evs rv)
    from u show ?thesis by (simp add: openElection_Inr(5) [OF open'(2)])
  next
    case (close e' evs rv)
    from u show ?thesis by (simp add: closeElection_Inr(5) [OF close(2)])
  next
    case (register e' t' evs rv)
    from u show ?thesis by (simp add: registerAnonymousToken_Inr(4) [OF register(2)])
  next
    case (cast e' t' b evs h)
    from u show ?thesis by (auto simp: castVote_Inr(6) [OF cast(2)])
  qed
qed

lemma later_vote_kept:
  "later K s s' \<Longrightarrow> voteHash (votes s e h) \<noteq> 0 \<Longrightarrow> votes s' e h = votes s e h"
proof (induction rule: later.induct)
  case now
  show ?case by simp
next
  case (after s' env c s'')
  from after.IH [OF after.prems] have k: "votes s' e h = votes s e h" .
  from after.hyps(2) show ?case
  proof (cases rule: transact_cases)
    case (create t' st en r evs rv)
    from k show ?thesis by (simp add: createElection_Inr(6) [OF create(2)])
  next
    case (open' e' evs rv)
    from k show ?thesis by (simp add: openElection_Inr(5) [OF open'(2)])
  next
    case (close e' evs rv)
    from k show ?thesis by (simp add: closeElection_Inr(5) [OF close(2)])
  next
    case (register e' t' evs rv)
    from k show ?thesis by (simp add: registerAnonymousToken_Inr(4) [OF register(2)])
  next
    case (cast e' t' b evs h')
    note f = castVote_Inr [OF cast(2)]
    have "\<not> (e' = e \<and> h' = h)"
      using f(4) k after.prems by auto
    with k show ?thesis by (auto simp: f(6))
  qed
qed

lemma sample_register_created:
  "registerAnonymousToken sample_authority_env 1 77 (sample_ledger False False)
     = Inr (sample_ledger False False, [TokenRegistered 1 77], ())"
proof -
  have "\<exists>s' evs. registerAnonymousToken sample_authority_env 1 77 (sample_ledger False False)
          = Inr (s', evs, ())"
    by (simp add: registerAnonymousToken_def onlyAuthority_def electionExists_def
          sample_authority_env_def sample_ledger_def)
  then obtain s' evs where
    r: "registerAnonymousToken sample_authority_env 1 77 (sample_ledger False False)
          = Inr (s', evs, ())" by blast
  from registerAnonymousToken_Inr(4,5) [OF r] r show ?thesis by simp
qed

text \<open>
  Claim C3. Token \<open>T\<close> was registered for election \<open>e\<close> and has not been used
  since; now the election is open and not closed, and the block time is within
  \<open>[startTime, endTime]\<close>. Let \<open>h\<close> be the digest \<open>castVote\<close> computes; it is
  assumed non-zero and not yet a key of the election's votes (the contract's own
  collision guard), and \<open>totalVotes\<close> is below the maximum of \<open>uint256\<close>. Then
  \<open>castVote\<close> returns \<open>h\<close>, emits \<open>VoteCast\<close>, marks \<open>T\<close> used, stores the vote
  under \<open>h\<close>, appends \<open>h\<close> to the election's list and raises \<open>totalVotes\<close> by
  exactly one. In every storage reached afterwards, by any transactions, \<open>castVote\<close>
  with \<open>T\<close> reverts: with \<open>TokenAlreadyUsed\<close> whenever the election passes the
  \<open>electionActive\<close> modifier, which runs first, and with that modifier's revert
  otherwise; and \<open>verifyVoteInclusion\<close> of \<open>h\<close> returns \<open>exists = true\<close> with the
  vote's time and block.
\<close>

theorem registered_token_votes_once:
  assumes reg: "registerAnonymousToken env0 e T s0 = Inr (s1, evs0, ())"
    and since: "later K s1 s"
    and unused: "\<not> usedTokens s e T"
    and opened: "isActive (elections s e)" "\<not> isClosed (elections s e)"
    and window: "startTime (elections s e) \<le> block_timestamp env"
                "block_timestamp env \<le> endTime (elections s e)"
    and digest: "h = K (voteHash_preimage e T ballot (block_timestamp env) (block_number env))"
    and nonzero: "h \<noteq> 0"
    and fresh: "voteHash (votes s e h) = 0"
    and room: "totalVotes (elections s e) \<noteq> - 1"
  shows "\<exists>s'. castVote K env e T ballot s = Inr (s', [VoteCast e h (block_timestamp env)], h)
      \<and> usedTokens s' e T
      \<and> votes s' e h = \<lparr>voteHash = h, encryptedBallot = ballot, anonymousTokenHash = T,
                          timestamp = block_timestamp env, blockNumber = block_number env\<rparr>
      \<and> getElectionVoteHashes s' e = getElectionVoteHashes s e @ [h]
      \<and> unat (totalVotes (elections s' e)) = unat (totalVotes (elections s e)) + 1
      \<and> (\<forall>s'' env' ballot'. later K s' s'' \<longrightarrow>
            castVote K env' e T ballot' s''
              = Inl (case electionActive env' s'' e of None \<Rightarrow> TokenAlreadyUsed | Some err \<Rightarrow> err)
          \<and> verifyVoteInclusion s'' e h = (True, block_timestamp env, block_number env))"
proof -
  let ?s' = "s\<lparr>usedTokens := (usedTokens s)(e := (usedTokens s e)(T := True)),
            votes := (votes s)(e := (votes s e)(h :=
               \<lparr>voteHash = h, encryptedBallot = ballot, anonymousTokenHash = T,
                timestamp = block_timestamp env, blockNumber = block_number env\<rparr>)),
            electionVoteHashes := (electionVoteHashes s)(e := electionVoteHashes s e @ [h]),
            elections := (elections s)(e := (elections s e)\<lparr>totalVotes := totalVotes (elections s e) + 1\<rparr>)\<rparr>"
  have act: "electionActive env s e = None"
    using opened window by (simp add: electionActive_None)
  have cast: "castVote K env e T ballot s = Inr (?s', [VoteCast e h (block_timestamp env)], h)"
    by (rule castVote_succeeds) (fact act unused digest fresh room)+
  have used: "usedTokens ?s' e T" by simp
  have vote: "votes ?s' e h = \<lparr>voteHash = h, encryptedBallot = ballot, anonymousTokenHash = T,
                          timestamp = block_timestamp env, blockNumber = block_number env\<rparr>"
    by simp
  have hashes: "getElectionVoteHashes ?s' e = getElectionVoteHashes s e @ [h]"
    by (simp add: getElectionVoteHashes_def)
  have count: "unat (totalVotes (elections ?s' e)) = unat (totalVotes (elections s e)) + 1"
    using unat_succ_word [OF room] by simp
  have after: "castVote K env' e T ballot' s''
              = Inl (case electionActive env' s'' e of None \<Rightarrow> TokenAlreadyUsed | Some err \<Rightarrow> err)
          \<and> verifyVoteInclusion s'' e h = (True, block_timestamp env, block_number env)"
    if l: "later K ?s' s''" for s'' env' ballot'
  proof -
    from later_used [OF l used] have "usedTokens s'' e T" .
    then have a: "castVote K env' e T ballot' s''
              = Inl (case electionActive env' s'' e of None \<Rightarrow> TokenAlreadyUsed | Some err \<Rightarrow> err)"
      by (rule castVote_used_token)
    from nonzero have "voteHash (votes ?s' e h) \<noteq> 0" by simp
    from later_vote_kept [OF l this] have "votes s'' e h = votes ?s' e h" .
    with nonzero have "verifyVoteInclusion s'' e h = (True, block_timestamp env, block_number env)"
      by (simp add: verifyVoteInclusion_def)
    with a show ?thesis by simp
  qed
  from cast used vote hashes count after show ?thesis by blast
qed

theorem registered_token_votes_once_witness:
  "registerAnonymousToken sample_authority_env 1 77 (sample_ledger False False)
     = Inr (sample_ledger False False, [TokenRegistered 1 77], ())
   \<and> later sampleDigest (sample_ledger False False) (sample_ledger True False)
   \<and> \<not> usedTokens (sample_ledger True False) 1 77
   \<and> isActive (elections (sample_ledger True False) 1)
   \<and> \<not> isClosed (elections (sample_ledger True False) 1)
   \<and> startTime (elections (sample_ledger True False) 1) \<le> block_timestamp sample_voter_env
   \<and> block_timestamp sample_voter_env \<le> endTime (elections (sample_ledger True False) 1)
   \<and> sampleDigest (voteHash_preimage 1 77 [1, 2, 3] (block_timestamp sample_voter_env)
        (block_number sample_voter_env)) = 132
   \<and> (132 :: bytes32) \<noteq> 0
   \<and> voteHash (votes (sample_ledger True False) 1 132) = 0
   \<and> totalVotes (elections (sample_ledger True False) 1) \<noteq> - 1
   \<and> castVote sampleDigest sample_voter_env 1 77 [1, 2, 3] (sample_ledger True False)
       = Inr (sample_voted, [VoteCast 1 132 1500], 132)
   \<and> usedTokens sample_voted 1 77
   \<and> castVote sampleDigest sample_voter_env 1 77 [4, 5] sample_voted = Inl TokenAlreadyUsed
   \<and> verifyVoteInclusion sample_voted 1 132 = (True, 1500, 6)"
proof -
  let ?s = "sample_ledger True False"
  note reg = sample_register_created
  have "transact sampleDigest sample_authority_env (OpenElection 1) (sample_ledger False False)
          = Inr ?s"
    by (simp add: sample_open)
  from later.after [OF later.now this]
  have since: "later sampleDigest (sample_ledger False False) ?s" .
  have unused: "\<not> usedTokens ?s 1 77" by (simp add: sample_ledger_def)
  have opened: "isActive (elections ?s 1)" "\<not> isClosed (elections ?s 1)"
    by (simp_all add: sample_ledger_def)
  have window: "startTime (elections ?s 1) \<le> block_timestamp sample_voter_env"
    "block_timestamp sample_voter_env \<le> endTime (elections ?s 1)"
    by (simp_all add: sample_ledger_def sample_voter_env_def)
  have digest: "132 = sampleDigest (voteHash_preimage 1 77 [1, 2, 3]
                  (block_timestamp sample_voter_env) (block_number sample_voter_env))"
    by (simp add: sample_digest_value)
  have nonzero: "(132 :: bytes32) \<noteq> 0" by simp
  have fresh: "voteHash (votes ?s 1 132) = 0"
    by (simp add: sample_ledger_def default_EncryptedVote_def)
  have room: "totalVotes (elections ?s 1) \<noteq> - 1"
    by (simp add: sample_ledger_def)
  from registered_token_votes_once [where K = sampleDigest and env = sample_voter_env
         and ballot = "[1, 2, 3]" and h = 132,
         OF reg since unused opened window digest nonzero fresh room]
  obtain s' where
    cast: "castVote sampleDigest sample_voter_env 1 77 [1, 2, 3] ?s
             = Inr (s', [VoteCast 1 132 (block_timestamp sample_voter_env)], 132)"
    and used: "usedTokens s' 1 77"
    and all: "\<forall>s'' env' ballot'. later sampleDigest s' s'' \<longrightarrow>
            castVote sampleDigest env' 1 77 ballot' s''
              = Inl (case electionActive env' s'' 1 of None \<Rightarrow> TokenAlreadyUsed | Some err \<Rightarrow> err)
          \<and> verifyVoteInclusion s'' 1 132
              = (True, block_timestamp sample_voter_env, block_number sample_voter_env)"
    by blast
  from cast have s': "s' = sample_voted" by (simp add: sample_cast)
  have act: "electionActive sample_voter_env sample_voted 1 = None"
    by (simp add: electionActive_def sample_voter_env_def sample_voted_def)
  from all later.now [of sampleDigest s'] have
    "castVote sampleDigest sample_voter_env 1 77 [4, 5] s'
       = Inl (case electionActive sample_voter_env s' 1 of None \<Rightarrow> TokenAlreadyUsed
              | Some err \<Rightarrow> err)
     \<and> verifyVoteInclusion s' 1 132
         = (True, block_timestamp sample_voter_env, block_number sample_voter_env)"
    by blast
  then have again: "castVote sampleDigest sample_voter_env 1 77 [4, 5] sample_voted
                      = Inl TokenAlreadyUsed"
    and incl: "verifyVoteInclusion sample_voted 1 132 = (True, 1500, 6)"
    unfolding s' act by (simp_all add: sample_voter_env_def)
  from reg since unused opened window digest nonzero fresh room used again incl show ?thesis
    by (simp add: s' sample_cast)
qed

subsection \<open>The election lifecycle\<close>

text \<open>
  Claim C5. In every reachable storage and for every election \<open>i\<close>, a transaction
  either leaves the phase of \<open>i\<close> as it is, or moves it from \<open>Created\<close> to \<open>Opened\<close>
  and is \<open>openElection i\<close>, or moves it from \<open>Opened\<close> to \<open>Closed\<close> and is
  \<open>closeElection i\<close>; so \<open>Closed\<close> has no way out. \<open>openElection\<close> on a \<open>Closed\<close>
  election reverts with \<open>AlreadyClosed\<close> when the authority calls it (and with
  \<open>Unauthorized\<close> for anybody else).
\<close>

theorem election_lifecycle_linear:
  assumes "reachable K s"
  shows "(transact K env c s = Inr s' \<longrightarrow>
            phase_of (elections s' i) = phase_of (elections s i)
          \<or> (phase_of (elections s i) = Created \<and> phase_of (elections s' i) = Opened
              \<and> c = OpenElection i)
          \<or> (phase_of (elections s i) = Opened \<and> phase_of (elections s' i) = Closed
              \<and> c = CloseElection i))
       \<and> (phase_of (elections s i) = Closed \<longrightarrow>
            openElection env i s =
              Inl (if msg_sender env = electionAuthority s then AlreadyClosed else Unauthorized))"
  using step_phase [OF assms] openElection_on_closed [OF assms] by blast

theorem election_lifecycle_linear_witness:
  "reachable sampleDigest (sample_ledger False False)
   \<and> transact sampleDigest sample_authority_env (OpenElection 1) (sample_ledger False False)
       = Inr (sample_ledger True False)
   \<and> phase_of (elections (sample_ledger False False) 1) = Created
   \<and> phase_of (elections (sample_ledger True False) 1) = Opened
   \<and> reachable sampleDigest (sample_ledger False True)
   \<and> phase_of (elections (sample_ledger False True) 1) = Closed
   \<and> openElection sample_authority_env 1 (sample_ledger False True) = Inl AlreadyClosed"
proof -
  have step: "transact sampleDigest sample_authority_env (OpenElection 1) (sample_ledger False False)
                = Inr (sample_ledger True False)"
    by (simp add: sample_open)
  have ph: "phase_of (elections (sample_ledger False False) 1) = Created"
    "phase_of (elections (sample_ledger True False) 1) = Opened"
    "phase_of (elections (sample_ledger False True) 1) = Closed"
    by (simp_all add: phase_of_def sample_ledger_def)
  have auth: "msg_sender sample_authority_env = electionAuthority (sample_ledger False True)"
    by (simp add: sample_authority_env_def sample_ledger_def)
  from election_lifecycle_linear [OF sample_reachable(3), where env = sample_authority_env
         and i = 1] ph(3) auth
  have "openElection sample_authority_env 1 (sample_ledger False True) = Inl AlreadyClosed"
    by simp
  with election_lifecycle_linear [OF sample_reachable(1), where env = sample_authority_env
         and c = "OpenElection 1" and s' = "sample_ledger True False" and i = 1]
       step ph sample_reachable [of sampleDigest]
  show ?thesis by simp
qed

subsection \<open>Vote counts\<close>

text \<open>
  Claim C10. In every reachable storage \<open>totalVotes\<close> of election \<open>i\<close> equals the
  length of its list of vote hashes. A transaction that is a \<open>castVote\<close> on \<open>i\<close>
  appends exactly one hash and raises \<open>totalVotes\<close> by exactly one; any other
  transaction leaves both as they were.
\<close>

theorem totalVotes_counts_vote_hashes:
  assumes "reachable K s"
  shows "unat (totalVotes (elections s i)) = length (getElectionVoteHashes s i)
       \<and> (transact K env c s = Inr s' \<longrightarrow>
           (if \<exists>t b. c = CastVote i t b
            then (\<exists>h. getElectionVoteHashes s' i = getElectionVoteHashes s i @ [h])
                 \<and> unat (totalVotes (elections s' i)) = unat (totalVotes (elections s i)) + 1
            else getElectionVoteHashes s' i = getElectionVoteHashes s i
                 \<and> totalVotes (elections s' i) = totalVotes (elections s i)))"
  using reachable_counts [OF assms, of i] step_counts [OF assms, of env c s' i]
  by (simp add: getElectionVoteHashes_def)

theorem totalVotes_counts_vote_hashes_witness:
  "reachable sampleDigest (sample_ledger True False)
   \<and> unat (totalVotes (elections (sample_ledger True False) 1))
       = length (getElectionVoteHashes (sample_ledger True False) 1)
   \<and> transact sampleDigest sample_voter_env (CastVote 1 77 [1, 2, 3]) (sample_ledger True False)
       = Inr sample_voted
   \<and> getElectionVoteHashes sample_voted 1 = getElectionVoteHashes (sample_ledger True False) 1 @ [132]
   \<and> unat (totalVotes (elections sample_voted 1))
       = unat (totalVotes (elections (sample_ledger True False) 1)) + 1"
proof -
  have step: "transact sampleDigest sample_voter_env (CastVote 1 77 [1, 2, 3])
                (sample_ledger True False) = Inr sample_voted"
    by (simp add: sample_cast)
  have h: "getElectionVoteHashes sample_voted 1
             = getElectionVoteHashes (sample_ledger True False) 1 @ [132]"
    by (simp add: getElectionVoteHashes_def sample_voted_def sample_ledger_def)
  from totalVotes_counts_vote_hashes [OF sample_reachable(2), where i = 1
         and env = sample_voter_env and c = "CastVote 1 77 [1, 2, 3]" and s' = sample_voted] step
  have "unat (totalVotes (elections (sample_ledger True False) 1))
          = length (getElectionVoteHashes (sample_ledger True False) 1)
        \<and> unat (totalVotes (elections sample_voted 1))
          = unat (totalVotes (elections (sample_ledger True False) 1)) + 1"
    by simp
  with step h sample_reachable(2) [of sampleDigest] show ?thesis by simp
qed

section \<open>Properties of the proof helper and the circuit\<close>

text \<open>
  The circuit's nullifier is Poseidon of the voter's id, the voter's secret and the
  election id; in a Groth16 proof it is the first public signal.
\<close>

lemma levelHashes_padding:
  "0 \<le> cur \<Longrightarrow> cur < bn128_r \<Longrightarrow> levelHashes H (replicate n 0) (replicate n s) cur = cur"
  by (induction n) (simp_all add: IsZero_def Let_def split: prod.splits)

lemma VoterEligibility_Some:
  assumes "VoterEligibility H P3 v s pe pi r e = Some n"
  shows "n = P3 (v mod bn128_r) (s mod bn128_r) (e mod bn128_r) mod bn128_r"
  using assms by (simp add: VoterEligibility_def Let_def split: if_splits)

lemma helper_nullifier_field:
  assumes "generateVoteProofWithMerklePath K H P3 isReady i c r mp e = Inr out"
  shows "nullifier out = generateNullifier K (generateVoterId K i) (generateSecretCode K i)"
  using assms
  by (auto simp: generateVoteProofWithMerklePath_def generateMockProof_def Let_def
           split: if_splits option.splits)

lemma helper_nullifier_ignores_electionId:
  assumes "generateVoteProofWithMerklePath K H P3 isReady i c r mp e = Inr out"
    and "generateVoteProofWithMerklePath K H P3 isReady i c r mp e' = Inr out'"
  shows "nullifier out' = nullifier out"
  using helper_nullifier_field [OF assms(1)] helper_nullifier_field [OF assms(2)] by simp

lemma helper_publicSignals_nullifier:
  assumes "generateVoteProofWithMerklePath K H P3 True i c r mp e = Inr out"
  shows "publicSignals out ! 0 =
           word_of_int (P3 (uint (generateVoterId K i) mod bn128_r)
                           (uint (generateSecretCode K i) mod bn128_r)
                           (uint e mod bn128_r) mod bn128_r)"
  using assms
  by (auto simp: generateVoteProofWithMerklePath_def circuit_publicSignals_def Let_def
           split: option.splits dest: VoterEligibility_Some)

lemma sample_ids:
  "generateVoterId sampleDigest 7 = 14" "generateSecretCode sampleDigest 7 = 17"
  by (simp_all add: generateVoterId_def generateSecretCode_def sampleDigest_def toUtf8Bytes_def
        padStart10_def js_String_def)

text \<open>
  Claim C4, at a failing input. Voter 7 asks for a proof in election 1 and in
  election 2, with the same root and path. The first public signal, the circuit's
  nullifier, differs between the two (201 and 212), but the field \<open>nullifier\<close> of
  the returned object, which the load test submits as the nullifier, is 65 in both:
  \<open>generateNullifier\<close> hashes the voter's id and secret code only.
\<close>

theorem helper_nullifier_same_across_elections:
  "generateVoteProofWithMerklePath sampleDigest sampleHash samplePoseidon3 True 7 ''Candidat_A'' 14
       \<lparr>elements = replicate 20 0, indices = replicate 20 0\<rparr> 1
     = Inr \<lparr>publicSignals = [201, 14, 1], nullifier = 65\<rparr>
   \<and> generateVoteProofWithMerklePath sampleDigest sampleHash samplePoseidon3 True 7 ''Candidat_A'' 14
       \<lparr>elements = replicate 20 0, indices = replicate 20 0\<rparr> 2
     = Inr \<lparr>publicSignals = [212, 14, 2], nullifier = 65\<rparr>"
proof -
  have fold: "levelHashes sampleHash (replicate 20 0) (replicate 20 0) 14 = 14"
    by (rule levelHashes_padding) (simp_all add: bn128_r_def)
  have n: "generateNullifier sampleDigest 14 17 = 65"
    by (simp add: generateNullifier_def sampleDigest_def length_be32)
  have small: "(0 :: int) mod bn128_r = 0" "(1 :: int) mod bn128_r = 1"
    "(2 :: int) mod bn128_r = 2" "(14 :: int) mod bn128_r = 14" "(17 :: int) mod bn128_r = 17"
    "(201 :: int) mod bn128_r = 201" "(212 :: int) mod bn128_r = 212"
    by (simp_all add: bn128_r_def)
  show ?thesis
    by (simp add: generateVoteProofWithMerklePath_def circuit_publicSignals_def
          VoterEligibility_def MerkleTreeChecker_def sample_ids n Let_def small fold
          samplePoseidon3_def)
qed

end
